theory Spec2Isabelle
  imports Complex_Main
begin

section \<open>The schedule block layout engine (\<open>src/algorithm/Renderer.cpp\<close>)\<close>

text \<open>
  A shallow embedding of the layout pipeline of \<open>Renderer.cpp\<close>. A pointer
  \<open>ScheduleBlock*\<close> is the position of the block in the array \<open>blocks\<close> (a natural
  number), so the pointer arrays \<open>blocksReordered\<close>, \<open>blockBuffer\<close> and the adjacency
  vectors are lists of positions. The \<open>int16_t\<close> fields hold integers of that range;
  the narrowing store into \<open>duration\<close> is written out. Arithmetic on \<open>int\<close> is the
  arithmetic of the integers: the only \<open>int\<close> sums of the code that can overflow are the sums
  of a time and a tolerance, and they do not while the tolerance is in the range \<open>tolInRange\<close>
  below, which the statements that depend on these sums assume. \<open>double\<close> values are real
  numbers.
\<close>

subsection \<open>Data\<close>

record ScheduleBlock =
  isFixed :: bool
  visited :: bool
  startMin :: int
  endMin :: int
  duration :: int
  idx :: nat
  depth :: int
  pathDepth :: int
  left :: real
  width :: real
  leftN :: "nat list"
  rightN :: "nat list"
  cleftN :: "nat list"
  crightN :: "nat list"

text \<open>The options that \<open>setOptions\<close> stores in the globals of the namespace.\<close>

record Options =
  isTolerance :: int
  ISMethod :: int
  applyDFS :: int
  dfsTolerance :: int
  LPIters :: int
  LPModel :: int
  MILP :: int

text \<open>The initial values of the globals (lines 16-22).\<close>

definition defaultOptions :: Options where
  "defaultOptions = \<lparr> isTolerance = 0, ISMethod = 1, applyDFS = 1, dfsTolerance = 0,
     LPIters = 100, LPModel = 3, MILP = 0 \<rparr>"

text \<open>
  The arrays of the namespace: \<open>blocks\<close> (the first \<open>N\<close> entries, so \<open>N\<close> is its length),
  \<open>blocksReordered\<close> and \<open>matrix\<close> (\<open>N * N\<close> flags, row-major).
\<close>

record Renderer =
  blocks :: "ScheduleBlock list"
  blocksReordered :: "nat list"
  matrix :: "bool list"

type_synonym Input = "int \<times> int"

definition INT_MAX :: int where
  "INT_MAX = 2147483647"


text \<open>The value an \<open>int16_t\<close> holds after an \<open>int\<close> is stored into it.\<close>

definition int16 :: "int \<Rightarrow> int" where
  "int16 x = (x + 32768) mod 65536 - 32768"

text \<open>
  The sums \<open>startMin + isTolerance\<close> (line 136), \<open>endMin + isTolerance\<close> (line 179) and
  \<open>startMin + dfsTolerance\<close> (line 202) are sums of 32-bit \<open>int\<close> values in the code; the
  model takes them in the integers. \<open>int32\<close> is the value a 32-bit \<open>int\<close> holds after a sum
  that wraps. For a tolerance in the range \<open>tolInRange\<close> and a time of the \<open>int16_t\<close> range the
  sum does not overflow, so the two agree (\<open>tolInRange_exact\<close> below); every statement about
  the rooms or the conflict graph that depends on the outcome of these comparisons assumes
  this range.
\<close>

definition int32 :: "int \<Rightarrow> int" where
  "int32 x = (x + 2147483648) mod 4294967296 - 2147483648"

definition tolInRange :: "int \<Rightarrow> bool" where
  "tolInRange t \<longleftrightarrow> - 2147450880 \<le> t \<and> t \<le> 2147450880"

subsection \<open>Set-up of \<open>compute\<close> (lines 642-664)\<close>

definition initBlock :: "nat \<Rightarrow> Input \<Rightarrow> ScheduleBlock" where
  "initBlock i a = \<lparr> isFixed = False, visited = False, startMin = fst a, endMin = snd a,
     duration = int16 (snd a - fst a), idx = i, depth = 0, pathDepth = 0,
     left = 0, width = 0, leftN = [], rightN = [], cleftN = [], crightN = [] \<rparr>"

definition setupBlocks :: "Input list \<Rightarrow> Renderer" where
  "setupBlocks arr = \<lparr> blocks = map (\<lambda>i. initBlock i (arr ! i)) [0..<length arr],
     blocksReordered = [0..<length arr],
     matrix = replicate (length arr * length arr) False \<rparr>"

subsection \<open>Sorting\<close>

text \<open>
  \<open>std::sort\<close> with a comparator \<open>lt\<close>: insertion sort is one of the orders it may
  return (elements that compare equal may come out in any order).
\<close>

fun insert_by :: "('a \<Rightarrow> 'a \<Rightarrow> bool) \<Rightarrow> 'a \<Rightarrow> 'a list \<Rightarrow> 'a list" where
  "insert_by lt x [] = [x]"
| "insert_by lt x (y # ys) = (if lt x y then x # y # ys else y # insert_by lt x ys)"

fun sort_by :: "('a \<Rightarrow> 'a \<Rightarrow> bool) \<Rightarrow> 'a list \<Rightarrow> 'a list" where
  "sort_by lt [] = []"
| "sort_by lt (x # xs) = insert_by lt x (sort_by lt xs)"

text \<open>The comparator of \<open>sortByStartTime\<close> (lines 111-115).\<close>

definition startTimeLess :: "ScheduleBlock \<Rightarrow> ScheduleBlock \<Rightarrow> bool" where
  "startTimeLess b1 b2 =
     (let diff = startMin b1 - startMin b2
      in if diff = 0 then duration b2 - duration b1 < 0 else diff < 0)"

definition sortByStartTime :: "Renderer \<Rightarrow> Renderer" where
  "sortByStartTime st =
     st\<lparr>blocksReordered :=
          sort_by (\<lambda>p q. startTimeLess (blocks st ! p) (blocks st ! q)) (blocksReordered st)\<rparr>"

subsection \<open>S1: interval scheduling (lines 123-190)\<close>

text \<open>
  The inner loop of \<open>intervalScheduling\<close>: the position \<open>idx\<close> in the buffer of the free
  room of least depth (\<open>None\<close> is the \<open>-1\<close> of the code), with \<open>minRoomIdx\<close>. The sum
  \<open>startMin + tol\<close> of line 136 is the sum of the code for \<open>tolInRange tol\<close>.
\<close>

definition findRoom :: "int \<Rightarrow> ScheduleBlock list \<Rightarrow> nat list \<Rightarrow> ScheduleBlock
    \<Rightarrow> nat option \<times> int" where
  "findRoom tol bs buf block =
     fold (\<lambda>k (idx, minRoomIdx).
             let prevBlock = bs ! (buf ! k)
             in if endMin prevBlock \<le> startMin block + tol \<and> depth prevBlock < minRoomIdx
                then (Some k, depth prevBlock) else (idx, minRoomIdx))
          [0..<length buf] (None, INT_MAX)"

text \<open>
  One iteration of the outer loop, on the block at position \<open>b\<close>: the state is the array
  of blocks, the occupied part of \<open>blockBuffer\<close> and \<open>numRooms\<close>.
\<close>

definition isStep :: "int \<Rightarrow> nat \<Rightarrow> ScheduleBlock list \<times> nat list \<times> int
    \<Rightarrow> ScheduleBlock list \<times> nat list \<times> int" where
  "isStep tol b = (\<lambda>(bs, buf, numRooms).
     case fst (findRoom tol bs buf (bs ! b)) of
       None \<Rightarrow> (bs[b := (bs ! b)\<lparr>depth := numRooms + 1\<rparr>], buf @ [b], numRooms + 1)
     | Some k \<Rightarrow> (bs[b := (bs ! b)\<lparr>depth := depth (bs ! (buf ! k))\<rparr>], buf[k := b], numRooms))"

text \<open>\<open>intervalScheduling\<close>: the state after it and the number of rooms returned.\<close>

definition intervalScheduling :: "Options \<Rightarrow> Renderer \<Rightarrow> Renderer \<times> int" where
  "intervalScheduling opts st =
     (if length (blocks st) = 0 then (st, 0)
      else let st1 = sortByStartTime st;
               ord = blocksReordered st1;
               (bs, buf, numRooms) =
                 fold (isStep (isTolerance opts)) (tl ord) (blocks st1, [hd ord], 0)
           in (st1\<lparr>blocks := bs\<rparr>, numRooms + 1))"

text \<open>
  The comparator of the priority queue of \<open>intervalScheduling2\<close> (lines 165-169). The
  queue is the list of its elements; \<open>top\<close> is the greatest element for the comparator
  and \<open>pop\<close> removes it, as \<open>std::priority_queue\<close> specifies. The sum
  \<open>endMin + tolerance\<close> of line 179 is the sum of the code for \<open>tolInRange tolerance\<close>.
\<close>

definition roomComp :: "ScheduleBlock \<Rightarrow> ScheduleBlock \<Rightarrow> bool" where
  "roomComp r1 r2 =
     (let diff = endMin r1 - endMin r2
      in if diff = 0 then depth r1 - depth r2 > 0 else diff > 0)"

definition queueTop :: "ScheduleBlock list \<Rightarrow> nat list \<Rightarrow> nat" where
  "queueTop bs q = fold (\<lambda>y x. if roomComp (bs ! x) (bs ! y) then y else x) (tl q) (hd q)"

definition is2Step :: "int \<Rightarrow> nat \<Rightarrow> ScheduleBlock list \<times> nat list \<times> int
    \<Rightarrow> ScheduleBlock list \<times> nat list \<times> int" where
  "is2Step tolerance b = (\<lambda>(bs, queue, numRooms).
     let prevBlock = queueTop bs queue
     in if endMin (bs ! prevBlock) + tolerance > startMin (bs ! b)
        then (bs[b := (bs ! b)\<lparr>depth := numRooms + 1\<rparr>], queue @ [b], numRooms + 1)
        else (bs[b := (bs ! b)\<lparr>depth := depth (bs ! prevBlock)\<rparr>],
              remove1 prevBlock queue @ [b], numRooms))"

definition intervalScheduling2 :: "Options \<Rightarrow> Renderer \<Rightarrow> Renderer \<times> int" where
  "intervalScheduling2 opts st =
     (if length (blocks st) = 0 then (st, 0)
      else let st1 = sortByStartTime st;
               ord = blocksReordered st1;
               (bs, queue, numRooms) =
                 fold (is2Step (isTolerance opts)) (tl ord) (blocks st1, [hd ord], 0)
           in (st1\<lparr>blocks := bs\<rparr>, numRooms + 1))"

text \<open>Stage S1 as \<open>compute\<close> calls it (line 668).\<close>

definition stageS1 :: "Options \<Rightarrow> Renderer \<Rightarrow> Renderer \<times> int" where
  "stageS1 opts st =
     (if ISMethod opts = 1 then intervalScheduling opts st else intervalScheduling2 opts st)"

subsection \<open>S2: the conflict graph (lines 197-214)\<close>

text \<open>The body of the inner loop, for the pointers \<open>bi\<close> and \<open>bj\<close>.\<close>

definition addEdge :: "nat \<Rightarrow> nat \<Rightarrow> Renderer \<Rightarrow> Renderer" where
  "addEdge bi bj st =
     (let bs = blocks st; n = length bs
      in if depth (bs ! bi) < depth (bs ! bj)
         then let m = (matrix st)[idx (bs ! bj) * n + idx (bs ! bi) := True];
                  bs1 = bs[bj := (bs ! bj)\<lparr>leftN := leftN (bs ! bj) @ [bi]\<rparr>];
                  bs2 = bs1[bi := (bs1 ! bi)\<lparr>rightN := rightN (bs1 ! bi) @ [bj]\<rparr>]
              in st\<lparr>blocks := bs2, matrix := m\<rparr>
         else let m = (matrix st)[idx (bs ! bi) * n + idx (bs ! bj) := True];
                  bs1 = bs[bj := (bs ! bj)\<lparr>rightN := rightN (bs ! bj) @ [bi]\<rparr>];
                  bs2 = bs1[bi := (bs1 ! bi)\<lparr>leftN := leftN (bs1 ! bi) @ [bj]\<rparr>]
              in st\<lparr>blocks := bs2, matrix := m\<rparr>)"

text \<open>
  The inner loop over \<open>j = i + 1, ...\<close>, which stops at the first \<open>bj\<close> that starts too late.
  The sum \<open>startMin + tol\<close> of line 202 is the sum of the code for \<open>tolInRange tol\<close>.
\<close>

fun adjInner :: "int \<Rightarrow> nat \<Rightarrow> nat list \<Rightarrow> Renderer \<Rightarrow> Renderer" where
  "adjInner tol bi [] st = st"
| "adjInner tol bi (bj # rest) st =
     (if startMin (blocks st ! bj) + tol \<ge> endMin (blocks st ! bi) then st
      else adjInner tol bi rest (addEdge bi bj st))"

fun adjOuter :: "int \<Rightarrow> nat list \<Rightarrow> Renderer \<Rightarrow> Renderer" where
  "adjOuter tol [] st = st"
| "adjOuter tol (bi # rest) st = adjOuter tol rest (adjInner tol bi rest st)"

definition constructAdjList :: "Options \<Rightarrow> Renderer \<Rightarrow> Renderer" where
  "constructAdjList opts st = adjOuter (dfsTolerance opts) (blocksReordered st) st"

subsection \<open>S3: condensing the adjacency lists (lines 219-236)\<close>

definition condenseBlock :: "Renderer \<Rightarrow> ScheduleBlock \<Rightarrow> ScheduleBlock" where
  "condenseBlock st block =
     (let bs = blocks st; n = length bs; m = matrix st
      in block\<lparr>
           cleftN := cleftN block @
             filter (\<lambda>v1. \<not> list_ex (\<lambda>v. m ! (idx (bs ! v) * n + idx (bs ! v1))) (leftN block))
               (leftN block),
           crightN := crightN block @
             filter (\<lambda>v1. \<not> list_ex (\<lambda>v. m ! (idx (bs ! v1) * n + idx (bs ! v))) (rightN block))
               (rightN block)\<rparr>)"

definition condenseAdjList :: "Renderer \<Rightarrow> Renderer" where
  "condenseAdjList st = st\<lparr>blocks := map (condenseBlock st) (blocks st)\<rparr>"

subsection \<open>Invariants of the interval scheduling loops\<close>

text \<open>
  The rooms held by a scheduling loop, abstractly: \<open>dn\<close> lists the blocks processed so far,
  \<open>dep\<close> is their depth, \<open>R\<close> the set of the last blocks of the rooms and \<open>nr\<close> the
  counter \<open>numRooms\<close>; \<open>s\<close> and \<open>e\<close> are start and end time, \<open>tau\<close> the tolerance.
\<close>

definition roomsInv :: "int \<Rightarrow> (nat \<Rightarrow> int) \<Rightarrow> (nat \<Rightarrow> int) \<Rightarrow> nat list
    \<Rightarrow> (nat \<Rightarrow> int) \<Rightarrow> nat set \<Rightarrow> int \<Rightarrow> bool" where
  "roomsInv tau s e dn dep R nr \<longleftrightarrow>
     R \<subseteq> set dn \<and> inj_on dep R \<and> dep ` R = {0..nr} \<and> 0 \<le> nr \<and>
     (\<forall>p\<in>set dn. \<exists>r\<in>R. dep r = dep p \<and> (p = r \<or> e p \<le> s r + tau)) \<and>
     (\<forall>i j. i < j \<and> j < length dn \<and> dep (dn ! i) = dep (dn ! j)
         \<longrightarrow> e (dn ! i) \<le> s (dn ! j) + tau)"

definition cliqueInv :: "int \<Rightarrow> (nat \<Rightarrow> int) \<Rightarrow> (nat \<Rightarrow> int) \<Rightarrow> nat list \<Rightarrow> int \<Rightarrow> bool" where
  "cliqueInv tau s e dn nr \<longleftrightarrow>
     (\<exists>S. S \<subseteq> set dn \<and> int (card S) = nr + 1 \<and>
          (\<forall>a\<in>S. \<forall>b\<in>S. a \<noteq> b \<longrightarrow> max (s a) (s b) + tau < min (e a) (e b)))"

text \<open>
  The concrete loop states: only \<open>depth\<close> differs from the blocks \<open>bs0\<close> before the loop,
  and position \<open>k\<close> of the buffer of method 1 holds the last block of the room of depth \<open>k\<close>.
\<close>

definition frameDepth :: "ScheduleBlock list \<Rightarrow> ScheduleBlock list \<Rightarrow> bool" where
  "frameDepth bs0 bs \<longleftrightarrow>
     length bs = length bs0 \<and> (\<forall>i<length bs0. bs ! i = (bs0 ! i)\<lparr>depth := depth (bs ! i)\<rparr>)"

definition s1Inv :: "int \<Rightarrow> ScheduleBlock list \<Rightarrow> nat list \<Rightarrow> ScheduleBlock list \<Rightarrow> nat set \<Rightarrow> int \<Rightarrow> bool" where
  "s1Inv tau bs0 dn bs R nr \<longleftrightarrow>
     frameDepth bs0 bs \<and> set dn \<subseteq> {..<length bs0} \<and>
     (\<forall>i<length bs0. i \<notin> set dn \<longrightarrow> depth (bs ! i) = depth (bs0 ! i)) \<and>
     roomsInv tau (\<lambda>i. startMin (bs0 ! i)) (\<lambda>i. endMin (bs0 ! i)) dn (\<lambda>i. depth (bs ! i)) R nr"

definition bufInv :: "ScheduleBlock list \<Rightarrow> nat list \<Rightarrow> int \<Rightarrow> bool" where
  "bufInv bs buf nr \<longleftrightarrow> length buf = nat nr + 1 \<and> (\<forall>k<length buf. depth (bs ! (buf ! k)) = int k)"

text \<open>
  The order \<open>sortByStartTime\<close> leaves in \<open>blocksReordered\<close>: every block once, by
  ascending start. \<open>s1Tau\<close> is the slack a room of S1 allows: method 1 reuses a room that
  ended by \<open>startMin + isTolerance\<close>, method 2 one that ended by \<open>startMin - isTolerance\<close>.
\<close>

definition orderOK :: "ScheduleBlock list \<Rightarrow> nat list \<Rightarrow> bool" where
  "orderOK bs ord \<longleftrightarrow> distinct ord \<and> set ord = {..<length bs} \<and>
     sorted_wrt (\<lambda>p q. startMin (bs ! p) \<le> startMin (bs ! q)) ord"

definition s1Tau :: "Options \<Rightarrow> int" where
  "s1Tau opts = (if ISMethod opts = 1 then isTolerance opts else - isTolerance opts)"

subsection \<open>The notions of the specification\<close>

text \<open>
  A valid input: at most \<open>INT_MAX\<close> blocks (\<open>N\<close> is an \<open>int\<close>), each with \<open>int16_t\<close>
  times and \<open>startMin < endMin\<close>.
\<close>

definition validInput :: "Input list \<Rightarrow> bool" where
  "validInput arr \<longleftrightarrow>
     int (length arr) \<le> INT_MAX \<and>
     list_all (\<lambda>a. - 32768 \<le> fst a \<and> fst a < snd a \<and> snd a \<le> 32767) arr"

text \<open>Two blocks conflict, for the tolerance \<open>tol\<close> (section 3.3 of the specification).\<close>

definition conflict :: "int \<Rightarrow> ScheduleBlock \<Rightarrow> ScheduleBlock \<Rightarrow> bool" where
  "conflict tol a b \<longleftrightarrow> max (startMin a) (startMin b) + tol < min (endMin a) (endMin b)"

text \<open>A clique of the conflict graph: a set of positions of pairwise conflicting blocks.\<close>

definition isClique :: "int \<Rightarrow> ScheduleBlock list \<Rightarrow> nat set \<Rightarrow> bool" where
  "isClique tol bs S \<longleftrightarrow>
     S \<subseteq> {..<length bs} \<and> (\<forall>a\<in>S. \<forall>b\<in>S. a \<noteq> b \<longrightarrow> conflict tol (bs ! a) (bs ! b))"

text \<open>
  A room assignment \<open>c\<close> is proper when conflicting blocks get different rooms.
\<close>

definition properRooms :: "int \<Rightarrow> ScheduleBlock list \<Rightarrow> (nat \<Rightarrow> int) \<Rightarrow> bool" where
  "properRooms tol bs c \<longleftrightarrow>
     (\<forall>a<length bs. \<forall>b<length bs. a \<noteq> b \<and> conflict tol (bs ! a) (bs ! b) \<longrightarrow> c a \<noteq> c b)"

subsection \<open>Invariants of the construction of the conflict graph\<close>

text \<open>
  \<open>orient bs bi bj\<close> is the pair \<open>(a, j)\<close> that the body of the inner loop of
  \<open>constructAdjList\<close> records for \<open>bi\<close> before \<open>bj\<close>: \<open>j\<close> enters \<open>leftN\<close> of \<open>a\<close>, \<open>a\<close> enters
  \<open>rightN\<close> of \<open>j\<close>, and the matrix cell of \<open>(a, j)\<close> is set. \<open>adjFrame\<close> says that only
  \<open>leftN\<close> and \<open>rightN\<close> changed; \<open>adjInv st L\<close> that the adjacency lists and the matrix of
  \<open>st\<close> hold exactly the pairs of \<open>L\<close>; \<open>leftRel\<close> is the set of pairs recorded for a whole
  order \<open>ord\<close>.
\<close>

definition orient :: "ScheduleBlock list \<Rightarrow> nat \<Rightarrow> nat \<Rightarrow> nat \<times> nat" where
  "orient bs bi bj = (if depth (bs ! bi) < depth (bs ! bj) then (bj, bi) else (bi, bj))"

definition adjFrame :: "ScheduleBlock list \<Rightarrow> ScheduleBlock list \<Rightarrow> bool" where
  "adjFrame bs0 bs \<longleftrightarrow> length bs = length bs0 \<and>
     (\<forall>i<length bs0. isFixed (bs ! i) = isFixed (bs0 ! i) \<and> visited (bs ! i) = visited (bs0 ! i) \<and>
        startMin (bs ! i) = startMin (bs0 ! i) \<and> endMin (bs ! i) = endMin (bs0 ! i) \<and>
        duration (bs ! i) = duration (bs0 ! i) \<and> idx (bs ! i) = idx (bs0 ! i) \<and>
        depth (bs ! i) = depth (bs0 ! i) \<and> pathDepth (bs ! i) = pathDepth (bs0 ! i) \<and>
        left (bs ! i) = left (bs0 ! i) \<and> width (bs ! i) = width (bs0 ! i) \<and>
        cleftN (bs ! i) = cleftN (bs0 ! i) \<and> crightN (bs ! i) = crightN (bs0 ! i))"

definition adjInv :: "Renderer \<Rightarrow> (nat \<times> nat) set \<Rightarrow> bool" where
  "adjInv st L \<longleftrightarrow>
     length (matrix st) = length (blocks st) * length (blocks st) \<and>
     (\<forall>i<length (blocks st). idx (blocks st ! i) = i) \<and>
     L \<subseteq> {..<length (blocks st)} \<times> {..<length (blocks st)} \<and>
     (\<forall>a<length (blocks st). set (leftN (blocks st ! a)) = {j. (a, j) \<in> L}) \<and>
     (\<forall>j<length (blocks st). set (rightN (blocks st ! j)) = {a. (a, j) \<in> L}) \<and>
     (\<forall>a<length (blocks st). \<forall>j<length (blocks st).
         matrix st ! (idx (blocks st ! a) * length (blocks st) + idx (blocks st ! j)) \<longleftrightarrow> (a, j) \<in> L)"

definition leftRel :: "int \<Rightarrow> ScheduleBlock list \<Rightarrow> nat list \<Rightarrow> (nat \<times> nat) set" where
  "leftRel d bs ord = {p. \<exists>i k. i < k \<and> k < length ord \<and>
      startMin (bs ! (ord ! k)) + d < endMin (bs ! (ord ! i)) \<and> p = orient bs (ord ! i) (ord ! k)}"

subsection \<open>The stages of \<open>compute\<close> in sequence\<close>

text \<open>The state after S1, and after S1 and S2, on the blocks of the input \<open>arr\<close>.\<close>

definition afterS1 :: "Options \<Rightarrow> Input list \<Rightarrow> Renderer" where
  "afterS1 opts arr = fst (stageS1 opts (setupBlocks arr))"

definition afterS2 :: "Options \<Rightarrow> Input list \<Rightarrow> Renderer" where
  "afterS2 opts arr = constructAdjList opts (afterS1 opts arr)"

definition afterS3 :: "Options \<Rightarrow> Input list \<Rightarrow> Renderer" where
  "afterS3 opts arr = condenseAdjList (afterS2 opts arr)"

text \<open>The edges of the condensed graph: \<open>(b, v)\<close> for every \<open>v\<close> in \<open>cleftN\<close> of the block \<open>b\<close>.\<close>

definition cleftRel :: "Renderer \<Rightarrow> (nat \<times> nat) set" where
  "cleftRel st = set (concat (map (\<lambda>b. map (Pair b) (cleftN (blocks st ! b))) [0..<length (blocks st)]))"

subsection \<open>S4: the width seeds by depth-first search (lines 274-326)\<close>

text \<open>
  \<open>depthFirstSearchRec\<close> keeps its stack in \<open>blockBuffer\<close>; the model keeps it in a list, top
  first (the capacity of the buffer is not modelled). The function stops at a position
  outside the array, which no pointer of the program is; with that its loop terminates
  from every state: each round either visits a new block, or pops a block already visited,
  whose pushes are blocks not visited. The two counts below are the measure.
\<close>

lemma unvisited_count_update:
  assumes "i < length bs" and "\<not> visited (bs ! i)" and "visited x"
  shows "length (filter (\<lambda>b. \<not> visited b) (bs[i := x])) < length (filter (\<lambda>b. \<not> visited b) bs)"
proof -
  have "{k. k < length (bs[i := x]) \<and> \<not> visited (bs[i := x] ! k)} \<subset> {k. k < length bs \<and> \<not> visited (bs ! k)}"
    using assms by (auto simp: nth_list_update)
  then have "card {k. k < length (bs[i := x]) \<and> \<not> visited (bs[i := x] ! k)} < card {k. k < length bs \<and> \<not> visited (bs ! k)}"
    by (intro psubset_card_mono) auto
  then show ?thesis by (simp only: length_filter_conv_card)
qed

lemma unvisited_count_same:
  assumes "i < length bs" and "visited (bs ! i)" and "visited x"
  shows "length (filter (\<lambda>b. \<not> visited b) (bs[i := x])) = length (filter (\<lambda>b. \<not> visited b) bs)"
proof -
  have "{k. k < length (bs[i := x]) \<and> \<not> visited (bs[i := x] ! k)} = {k. k < length bs \<and> \<not> visited (bs ! k)}"
    using assms by (auto simp: nth_list_update)
  then show ?thesis by (simp only: length_filter_conv_card)
qed

function dfsLoop :: "int \<Rightarrow> nat list \<Rightarrow> ScheduleBlock list \<Rightarrow> ScheduleBlock list" where
  "dfsLoop maxDepth [] bs = bs"
| "dfsLoop maxDepth (start # rest) bs =
     (if start < length bs
      then let bs' = bs[start := (bs ! start)\<lparr>visited := True, pathDepth := maxDepth\<rparr>]
           in dfsLoop maxDepth
                (rev (filter (\<lambda>adj. \<not> visited (bs' ! adj)) (cleftN (bs' ! start))) @ rest) bs'
      else bs)"
  by pat_completeness auto
termination
proof (relation "measures [\<lambda>(d, stk, bs). length (filter (\<lambda>b. \<not> visited b) bs),
                           \<lambda>(d, stk, bs). length (filter (\<lambda>e. e < length bs \<and> visited (bs ! e)) stk)]",
       goal_cases)
  case 1
  then show ?case by simp
next
  case (2 maxDepth start rest bs bs')
  let ?x = "(bs ! start)\<lparr>visited := True, pathDepth := maxDepth\<rparr>"
  have bs': "bs' = bs[start := ?x]" using 2 by simp
  show ?case
  proof (cases "visited (bs ! start)")
    case False
    have "length (filter (\<lambda>b. \<not> visited b) bs') < length (filter (\<lambda>b. \<not> visited b) bs)"
      unfolding bs' by (rule unvisited_count_update[OF 2(1) False]) simp
    then show ?thesis by simp
  next
    case True
    have e: "length (filter (\<lambda>b. \<not> visited b) bs') = length (filter (\<lambda>b. \<not> visited b) bs)"
      unfolding bs' by (rule unvisited_count_same[OF 2(1) True]) simp
    have v: "\<And>k. k < length bs \<Longrightarrow> visited (bs' ! k) = visited (bs ! k)"
      unfolding bs' using True 2(1) by (auto simp: nth_list_update)
    have len: "length bs' = length bs" unfolding bs' by simp
    have p: "filter (\<lambda>e. e < length bs' \<and> visited (bs' ! e))
                (rev (filter (\<lambda>adj. \<not> visited (bs' ! adj)) (cleftN (bs' ! start)))) = []"
      by (auto simp: filter_empty_conv)
    have r: "filter (\<lambda>e. e < length bs' \<and> visited (bs' ! e)) rest = filter (\<lambda>e. e < length bs \<and> visited (bs ! e)) rest"
      by (rule filter_cong) (auto simp: len v)
    have "length (filter (\<lambda>e. e < length bs' \<and> visited (bs' ! e))
            (rev (filter (\<lambda>adj. \<not> visited (bs' ! adj)) (cleftN (bs' ! start))) @ rest))
          < length (filter (\<lambda>e. e < length bs \<and> visited (bs ! e)) (start # rest))"
      using p r 2(1) True by simp
    then show ?thesis using e by simp
  qed
qed

text \<open>
  \<open>dfsWidthExpansion\<close>: the sort by descending depth, one search from every block not yet
  visited (\<open>seedStep\<close> is the body of that loop), and the seeds \<open>left = depth / pathDepth\<close>, \<open>width = 1 / pathDepth\<close>.
\<close>

definition seedStep :: "nat \<Rightarrow> ScheduleBlock list \<Rightarrow> ScheduleBlock list" where
  "seedStep node bs =
     (if \<not> visited (bs ! node) then dfsLoop (depth (bs ! node) + 1) [node] bs else bs)"

definition dfsWidthExpansion :: "Renderer \<Rightarrow> Renderer" where
  "dfsWidthExpansion st =
     (let ord = sort_by (\<lambda>p q. depth (blocks st ! q) < depth (blocks st ! p)) (blocksReordered st);
          bs1 = fold seedStep ord (blocks st);
          bs2 = map (\<lambda>block. block\<lparr>left := real_of_int (depth block) / real_of_int (pathDepth block),
                                    width := 1 / real_of_int (pathDepth block)\<rparr>) bs1
      in st\<lparr>blocksReordered := ord, blocks := bs2\<rparr>)"

text \<open>Lines 688-689 of \<open>compute\<close>, and stage S4 as \<open>compute\<close> runs it when \<open>applyDFS\<close> is set.\<close>

definition clearVisited :: "Renderer \<Rightarrow> Renderer" where
  "clearVisited st = st\<lparr>blocks := map (\<lambda>node. node\<lparr>visited := False\<rparr>) (blocks st)\<rparr>"

definition afterS4 :: "Options \<Rightarrow> Input list \<Rightarrow> Renderer" where
  "afterS4 opts arr = clearVisited (dfsWidthExpansion (afterS3 opts arr))"

subsection \<open>Invariants of the depth-first search\<close>

text \<open>
  \<open>dfsFrame\<close>: only \<open>visited\<close> and \<open>pathDepth\<close> changed. \<open>visitedSet\<close>: the positions of the
  visited blocks. \<open>cleftEdges\<close>: the edges \<open>(x, y)\<close> with \<open>y\<close> in \<open>cleftN\<close> of \<open>x\<close>. \<open>dfsInv\<close> is
  the invariant of the loop of the search from \<open>s\<close> with \<open>maxDepth = d\<close>, started on the
  blocks \<open>bs0\<close>, for the stack \<open>stk\<close>; \<open>dfsPost\<close> is what the search has done when it returns.
\<close>

definition dfsFrame :: "ScheduleBlock list \<Rightarrow> ScheduleBlock list \<Rightarrow> bool" where
  "dfsFrame bs0 bs \<longleftrightarrow> length bs = length bs0 \<and>
     (\<forall>i<length bs0. isFixed (bs ! i) = isFixed (bs0 ! i) \<and>
        startMin (bs ! i) = startMin (bs0 ! i) \<and> endMin (bs ! i) = endMin (bs0 ! i) \<and>
        duration (bs ! i) = duration (bs0 ! i) \<and> idx (bs ! i) = idx (bs0 ! i) \<and>
        depth (bs ! i) = depth (bs0 ! i) \<and>
        left (bs ! i) = left (bs0 ! i) \<and> width (bs ! i) = width (bs0 ! i) \<and>
        leftN (bs ! i) = leftN (bs0 ! i) \<and> rightN (bs ! i) = rightN (bs0 ! i) \<and>
        cleftN (bs ! i) = cleftN (bs0 ! i) \<and> crightN (bs ! i) = crightN (bs0 ! i))"

definition visitedSet :: "ScheduleBlock list \<Rightarrow> nat set" where
  "visitedSet bs = {i. i < length bs \<and> visited (bs ! i)}"

definition cleftEdges :: "ScheduleBlock list \<Rightarrow> (nat \<times> nat) set" where
  "cleftEdges bs = {(x, y). x < length bs \<and> y \<in> set (cleftN (bs ! x))}"

definition dfsInv :: "ScheduleBlock list \<Rightarrow> nat \<Rightarrow> int \<Rightarrow> nat list \<Rightarrow> ScheduleBlock list \<Rightarrow> bool" where
  "dfsInv bs0 s d stk bs \<longleftrightarrow>
     dfsFrame bs0 bs \<and>
     visitedSet bs0 \<subseteq> visitedSet bs \<and>
     visitedSet bs \<subseteq> visitedSet bs0 \<union> (cleftEdges bs0)\<^sup>* `` {s} \<and>
     set stk \<subseteq> (cleftEdges bs0)\<^sup>* `` {s} \<and> set stk \<subseteq> {..<length bs0} \<and>
     set stk \<inter> visitedSet bs0 = {} \<and>
     (\<forall>x<length bs0. pathDepth (bs ! x) =
         (if x \<in> visitedSet bs - visitedSet bs0 then d else pathDepth (bs0 ! x))) \<and>
     (\<forall>x\<in>visitedSet bs - visitedSet bs0. \<forall>y. (x, y) \<in> cleftEdges bs0 \<longrightarrow> y \<in> visitedSet bs \<or> y \<in> set stk) \<and>
     (s \<in> visitedSet bs \<or> s \<in> set stk)"

definition dfsPost :: "ScheduleBlock list \<Rightarrow> nat \<Rightarrow> int \<Rightarrow> ScheduleBlock list \<Rightarrow> bool" where
  "dfsPost bs0 s d bs \<longleftrightarrow>
     dfsFrame bs0 bs \<and>
     visitedSet bs = visitedSet bs0 \<union> (cleftEdges bs0)\<^sup>* `` {s} \<and>
     (\<forall>x<length bs0. pathDepth (bs ! x) =
         (if x \<in> visitedSet bs - visitedSet bs0 then d else pathDepth (bs0 ! x)))"

text \<open>
  The invariant of the loop of \<open>dfsWidthExpansion\<close> after the blocks \<open>pre\<close> of the order: the
  visited blocks are those reachable from \<open>pre\<close>, and each has the \<open>pathDepth\<close> of the first
  block of \<open>pre\<close> that reaches it.
\<close>

definition seedInv :: "ScheduleBlock list \<Rightarrow> nat list \<Rightarrow> ScheduleBlock list \<Rightarrow> bool" where
  "seedInv bs0 pre bs \<longleftrightarrow>
     dfsFrame bs0 bs \<and>
     visitedSet bs = (cleftEdges bs0)\<^sup>* `` set pre \<and>
     (\<forall>b\<in>visitedSet bs. \<exists>k<length pre. (pre ! k, b) \<in> (cleftEdges bs0)\<^sup>* \<and>
         (\<forall>k'<k. (pre ! k', b) \<notin> (cleftEdges bs0)\<^sup>*) \<and>
         pathDepth (bs ! b) = depth (bs0 ! (pre ! k)) + 1)"

text \<open>The order of \<open>blocksReordered\<close> after the sort of \<open>dfsWidthExpansion\<close> (lines 310-313).\<close>

definition seedOrder :: "Renderer \<Rightarrow> nat list" where
  "seedOrder st = sort_by (\<lambda>p q. depth (blocks st ! q) < depth (blocks st ! p)) (blocksReordered st)"

subsection \<open>Non-DFS seeds and the fixed blocks (lines 289-307, 585-600)\<close>





subsection \<open>The components of the blocks that are not fixed (lines 243-264)\<close>








subsection \<open>The GLPK problem object\<close>

text \<open>
  GLPK is a library outside this repository. Its problem object is modelled as the data the
  calls of \<open>Renderer.cpp\<close> put into it, as the GLPK reference manual describes these calls:
  rows and columns are numbered from 1; \<open>glp_add_rows\<close> adds free rows; \<open>glp_add_cols\<close>
  adds continuous columns fixed at zero with objective coefficient zero; a bound of type
  \<open>GLP_LO\<close> uses only its lower value, \<open>GLP_UP\<close> only its upper value; \<open>glp_set_col_kind\<close>
  with \<open>GLP_BV\<close> makes a column an integer column with bounds \<open>[0, 1]\<close>; \<open>glp_load_matrix\<close>
  replaces the constraint matrix by the given triplets. The two solvers are parameters
  (\<open>Extern\<close>): what they return is not decided by this repository.
\<close>

datatype bndType = GLP_FR | GLP_LO | GLP_UP | GLP_DB | GLP_FX

datatype objDir = GLP_MIN | GLP_MAX

datatype colKind = GLP_CV | GLP_BV

record glp_prob =
  obj_dir :: objDir
  row_bnds :: "(bndType \<times> real \<times> real) list"
  col_bnds :: "(bndType \<times> real \<times> real) list"
  col_kind :: "colKind list"
  obj_coef :: "real list"
  coefs :: "(nat \<times> nat \<times> real) list"
  obj_val :: real
  col_prim :: "real list"

text \<open>
  What \<open>compute\<close> takes from outside: \<open>simplex\<close> gives the objective value and the column
  values that \<open>glp_simplex\<close> leaves in the problem object, \<open>intopt\<close> the column values that
  \<open>glp_intopt\<close> leaves, and \<open>idxMap0\<close> is the content of the array \<open>idxMap\<close> when \<open>compute\<close>
  starts (it is never initialised).
\<close>

record Extern =
  simplex :: "glp_prob \<Rightarrow> real \<times> real list"
  intopt :: "glp_prob \<Rightarrow> real list"
  idxMap0 :: "nat \<Rightarrow> nat"

definition glp_create_prob :: glp_prob where
  "glp_create_prob = \<lparr> obj_dir = GLP_MIN, row_bnds = [], col_bnds = [], col_kind = [],
     obj_coef = [], coefs = [], obj_val = 0, col_prim = [] \<rparr>"

definition glp_set_obj_dir :: "objDir \<Rightarrow> glp_prob \<Rightarrow> glp_prob" where
  "glp_set_obj_dir d p = p\<lparr>obj_dir := d\<rparr>"

definition glp_add_rows :: "nat \<Rightarrow> glp_prob \<Rightarrow> glp_prob" where
  "glp_add_rows n p = p\<lparr>row_bnds := row_bnds p @ replicate n (GLP_FR, 0, 0)\<rparr>"

definition glp_add_cols :: "nat \<Rightarrow> glp_prob \<Rightarrow> glp_prob" where
  "glp_add_cols n p = p\<lparr>col_bnds := col_bnds p @ replicate n (GLP_FX, 0, 0),
     col_kind := col_kind p @ replicate n GLP_CV, obj_coef := obj_coef p @ replicate n 0\<rparr>"

definition glp_set_row_bnds :: "nat \<Rightarrow> bndType \<Rightarrow> real \<Rightarrow> real \<Rightarrow> glp_prob \<Rightarrow> glp_prob" where
  "glp_set_row_bnds i t lb ub p = p\<lparr>row_bnds := (row_bnds p)[i - 1 := (t, lb, ub)]\<rparr>"

definition glp_set_col_bnds :: "nat \<Rightarrow> bndType \<Rightarrow> real \<Rightarrow> real \<Rightarrow> glp_prob \<Rightarrow> glp_prob" where
  "glp_set_col_bnds j t lb ub p = p\<lparr>col_bnds := (col_bnds p)[j - 1 := (t, lb, ub)]\<rparr>"

definition glp_set_obj_coef :: "nat \<Rightarrow> real \<Rightarrow> glp_prob \<Rightarrow> glp_prob" where
  "glp_set_obj_coef j c p = p\<lparr>obj_coef := (obj_coef p)[j - 1 := c]\<rparr>"

definition glp_set_col_kind_BV :: "nat \<Rightarrow> glp_prob \<Rightarrow> glp_prob" where
  "glp_set_col_kind_BV j p = p\<lparr>col_kind := (col_kind p)[j - 1 := GLP_BV],
     col_bnds := (col_bnds p)[j - 1 := (GLP_DB, 0, 1)]\<rparr>"

definition glp_load_matrix :: "(nat \<times> nat \<times> real) list \<Rightarrow> glp_prob \<Rightarrow> glp_prob" where
  "glp_load_matrix ts p = p\<lparr>coefs := ts\<rparr>"

definition glp_simplex :: "Extern \<Rightarrow> glp_prob \<Rightarrow> glp_prob" where
  "glp_simplex ext p = p\<lparr>obj_val := fst (simplex ext p), col_prim := snd (simplex ext p)\<rparr>"

definition glp_intopt :: "Extern \<Rightarrow> glp_prob \<Rightarrow> glp_prob" where
  "glp_intopt ext p = p\<lparr>col_prim := intopt ext p\<rparr>"






subsection \<open>The LP models (lines 331-497)\<close>

text \<open>
  While a model is built the code holds the problem object \<open>lp\<close>, the vectors \<open>ia\<close>, \<open>ja\<close>,
  \<open>ar\<close> (here the list \<open>ija\<close> of their entries from index 1 on) and the row counter
  \<open>auxVar\<close>. \<open>nextRow\<close> is \<open>glp_set_row_bnds(lp, auxVar++, ...)\<close>.
\<close>

record Builder =
  lp :: glp_prob
  ija :: "(nat \<times> nat \<times> real) list"
  auxVar :: nat


definition nextRow :: "bndType \<Rightarrow> real \<Rightarrow> real \<Rightarrow> Builder \<Rightarrow> Builder" where
  "nextRow t lb ub B = B\<lparr>lp := glp_set_row_bnds (auxVar B) t lb ub (lp B), auxVar := auxVar B + 1\<rparr>"
















subsection \<open>The MILP model (lines 499-579)\<close>













subsection \<open>S5 and S6: the fixed blocks and the LP loop (lines 693-733)\<close>








subsection \<open>\<open>compute\<close> (lines 624-736)\<close>



subsection \<open>Invariants of the construction of a model\<close>

text \<open>
  \<open>wfBuilder\<close>: every triplet so far belongs to a row below the counter \<open>auxVar\<close>.
  \<open>rowsSat B x\<close>: the values \<open>x\<close> satisfy every row below the counter. \<open>grows B B'\<close>: from
  \<open>B\<close> to \<open>B'\<close> the counter did not fall, the rows below the counter of \<open>B\<close> kept their
  bounds, and every new triplet belongs to a row from that counter on. \<open>maxLeftFixedOf\<close> and
  \<open>minRightFixedOf\<close> are the two bounds that the loops over \<open>cleftN\<close> and \<open>crightN\<close> compute
  for a block.
\<close>

definition wfBuilder :: "Builder \<Rightarrow> bool" where
  "wfBuilder B \<longleftrightarrow> 0 < auxVar B \<and> (\<forall>t\<in>set (ija B). fst t < auxVar B)"


definition grows :: "Builder \<Rightarrow> Builder \<Rightarrow> bool" where
  "grows B B' \<longleftrightarrow>
     auxVar B \<le> auxVar B' \<and>
     length (row_bnds (lp B)) \<le> length (row_bnds (lp B')) \<and>
     (\<forall>i. i + 1 < auxVar B \<longrightarrow> row_bnds (lp B') ! i = row_bnds (lp B) ! i) \<and>
     (\<exists>new. ija B' = ija B @ new \<and> (\<forall>t\<in>set new. auxVar B \<le> fst t))"



text \<open>
  \<open>rowStep\<close> is one row as the code writes it: its triplets in the row \<open>auxVar\<close>, then
  \<open>nextRow\<close>. \<open>blockRows\<close> is what the rows of one block of a component say about the column
  values \<open>x\<close>.
\<close>

definition rowStep :: "bndType \<Rightarrow> real \<Rightarrow> real \<Rightarrow> (nat \<times> real) list \<Rightarrow> Builder \<Rightarrow> Builder" where
  "rowStep t lb ub cs B = nextRow t lb ub (B\<lparr>ija := ija B @ map (\<lambda>c. (auxVar B, fst c, snd c)) cs\<rparr>)"





subsection \<open>Invariants of the LP stage\<close>









subsection \<open>Inputs and solver answers of the examples\<close>








section \<open>Properties\<close>

subsection \<open>Sorting\<close>

lemma set_insert_by: "set (insert_by lt x xs) = insert x (set xs)"
  by (induction xs) auto

lemma length_insert_by: "length (insert_by lt x xs) = Suc (length xs)"
  by (induction xs) auto

lemma distinct_insert_by: "distinct (insert_by lt x xs) \<longleftrightarrow> x \<notin> set xs \<and> distinct xs"
  by (induction xs) (auto simp: set_insert_by)

lemma set_sort_by: "set (sort_by lt xs) = set xs"
  by (induction xs) (auto simp: set_insert_by)

lemma length_sort_by: "length (sort_by lt xs) = length xs"
  by (induction xs) (auto simp: length_insert_by)

lemma distinct_sort_by: "distinct (sort_by lt xs) \<longleftrightarrow> distinct xs"
  by (induction xs) (auto simp: distinct_insert_by set_sort_by)

lemma sorted_insert_by:
  fixes key :: "'a \<Rightarrow> int"
  assumes "\<And>a b. lt a b \<Longrightarrow> key a \<le> key b" and "\<And>a b. \<not> lt a b \<Longrightarrow> key b \<le> key a"
    and "sorted_wrt (\<lambda>a b. key a \<le> key b) xs"
  shows "sorted_wrt (\<lambda>a b. key a \<le> key b) (insert_by lt x xs)"
  using assms(3)
proof (induction xs)
  case Nil
  then show ?case by simp
next
  case (Cons y ys)
  show ?case
  proof (cases "lt x y")
    case True
    then have "key x \<le> key y" by (rule assms(1))
    with Cons.prems True show ?thesis by (auto intro: order_trans)
  next
    case False
    then have "key y \<le> key x" by (rule assms(2))
    with Cons False show ?thesis by (auto simp: set_insert_by)
  qed
qed

lemma sorted_sort_by:
  fixes key :: "'a \<Rightarrow> int"
  assumes "\<And>a b. lt a b \<Longrightarrow> key a \<le> key b" and "\<And>a b. \<not> lt a b \<Longrightarrow> key b \<le> key a"
  shows "sorted_wrt (\<lambda>a b. key a \<le> key b) (sort_by lt xs)"
  by (induction xs) (auto intro: sorted_insert_by assms)

subsection \<open>The sums of a time and a tolerance\<close>

lemma tolInRange_exact:
  assumes "tolInRange t" and "- 32768 \<le> x" and "x \<le> 32767"
  shows "int32 (x + t) = x + t"
proof -
  have "0 \<le> x + t + 2147483648" "x + t + 2147483648 < 4294967296"
    using assms by (simp_all add: tolInRange_def)
  then have "(x + t + 2147483648) mod 4294967296 = x + t + 2147483648" by simp
  then show ?thesis by (simp add: int32_def)
qed

lemma tolInRange_neg: "tolInRange (- t) \<longleftrightarrow> tolInRange t"
  by (auto simp: tolInRange_def)

subsection \<open>The abstract rooms invariant\<close>

lemma roomsInv_init: "roomsInv tau s e [h] (\<lambda>i. if i = h then 0 else d i) {h} 0"
  by (auto simp: roomsInv_def)

lemma roomsInv_range: "roomsInv tau s e dn dep R nr \<Longrightarrow> p \<in> set dn \<Longrightarrow> 0 \<le> dep p \<and> dep p \<le> nr"
  unfolding roomsInv_def by (metis atLeastAtMost_iff imageI)

lemma roomsInv_reuse:
  assumes inv: "roomsInv tau s e dn dep R nr"
    and r0: "r0 \<in> R" and free: "e r0 \<le> s b + tau"
    and b: "b \<notin> set dn" and srt: "\<forall>p\<in>set dn. s p \<le> s b"
  shows "roomsInv tau s e (dn @ [b]) (dep(b := dep r0)) (insert b (R - {r0})) nr"
proof -
  from inv have R: "R \<subseteq> set dn" and inj: "inj_on dep R" and img: "dep ` R = {0..nr}"
    and nr: "0 \<le> nr"
    and last: "\<forall>p\<in>set dn. \<exists>r\<in>R. dep r = dep p \<and> (p = r \<or> e p \<le> s r + tau)"
    and pw: "\<forall>i j. i < j \<and> j < length dn \<and> dep (dn ! i) = dep (dn ! j)
         \<longrightarrow> e (dn ! i) \<le> s (dn ! j) + tau"
    by (auto simp: roomsInv_def)
  let ?dep = "dep(b := dep r0)" and ?R = "insert b (R - {r0})"
  have bR: "b \<notin> R" using R b by auto
  have depR: "\<And>x. x \<in> set dn \<Longrightarrow> ?dep x = dep x" using b by auto
  have same: "\<And>p. p \<in> set dn \<Longrightarrow> dep p = dep r0 \<Longrightarrow> e p \<le> s b + tau"
  proof -
    fix p assume p: "p \<in> set dn" and d: "dep p = dep r0"
    from last p obtain r where r: "r \<in> R" "dep r = dep p" "p = r \<or> e p \<le> s r + tau" by blast
    from r(1,2) d r0 inj have "r = r0" by (auto dest: inj_onD)
    with r(3) free srt r0 R show "e p \<le> s b + tau" by force
  qed
  have 1: "?R \<subseteq> set (dn @ [b])" using R by auto
  have 2: "inj_on ?dep ?R"
  proof (rule inj_onI)
    fix x y assume x: "x \<in> ?R" and y: "y \<in> ?R" and eq: "?dep x = ?dep y"
    show "x = y"
    proof (cases "x = b"; cases "y = b")
      assume "x = b" "y \<noteq> b"
      with y eq have "y \<in> R" "y \<noteq> r0" "dep y = dep r0" by auto
      with inj r0 show ?thesis by (auto dest: inj_onD)
    next
      assume "x \<noteq> b" "y = b"
      with x eq have "x \<in> R" "x \<noteq> r0" "dep x = dep r0" by auto
      with inj r0 show ?thesis by (auto dest: inj_onD)
    next
      assume "x \<noteq> b" "y \<noteq> b"
      with x y eq have "x \<in> R" "y \<in> R" "dep x = dep y" by auto
      with inj show ?thesis by (auto dest: inj_onD)
    qed simp
  qed
  have 3: "?dep ` ?R = {0..nr}"
  proof -
    have "?dep ` ?R = insert (dep r0) (dep ` (R - {r0}))" using bR by auto
    also have "\<dots> = dep ` R" using r0 by auto
    finally show ?thesis using img by simp
  qed
  have 4: "\<forall>p\<in>set (dn @ [b]). \<exists>r\<in>?R. ?dep r = ?dep p \<and> (p = r \<or> e p \<le> s r + tau)"
  proof
    fix p assume p: "p \<in> set (dn @ [b])"
    show "\<exists>r\<in>?R. ?dep r = ?dep p \<and> (p = r \<or> e p \<le> s r + tau)"
    proof (cases "p = b")
      case True then show ?thesis by auto
    next
      case False
      with p have pd: "p \<in> set dn" by auto
      show ?thesis
      proof (cases "dep p = dep r0")
        case True
        with same[OF pd] False show ?thesis by (intro bexI[of _ b]) auto
      next
        case False
        from last pd obtain r where r: "r \<in> R" "dep r = dep p" "p = r \<or> e p \<le> s r + tau" by blast
        with False have "r \<noteq> r0" by auto
        moreover have "r \<noteq> b" using r(1) bR by auto
        ultimately show ?thesis using r \<open>p \<noteq> b\<close> by (intro bexI[of _ r]) auto
      qed
    qed
  qed
  have 5: "\<forall>i j. i < j \<and> j < length (dn @ [b]) \<and> ?dep ((dn @ [b]) ! i) = ?dep ((dn @ [b]) ! j)
         \<longrightarrow> e ((dn @ [b]) ! i) \<le> s ((dn @ [b]) ! j) + tau"
  proof (intro allI impI)
    fix i j assume h: "i < j \<and> j < length (dn @ [b]) \<and> ?dep ((dn @ [b]) ! i) = ?dep ((dn @ [b]) ! j)"
    show "e ((dn @ [b]) ! i) \<le> s ((dn @ [b]) ! j) + tau"
    proof (cases "j < length dn")
      case True
      with h have i: "i < length dn" by auto
      have "dn ! i \<in> set dn" "dn ! j \<in> set dn" using i True by auto
      then have "dn ! i \<noteq> b" "dn ! j \<noteq> b" using b by auto
      with h True i pw show ?thesis by (auto simp: nth_append)
    next
      case False
      with h have j: "j = length dn" and i: "i < length dn" by auto
      have m: "dn ! i \<in> set dn" using i by auto
      then have "dn ! i \<noteq> b" using b by auto
      with h j i have "dep (dn ! i) = dep r0" by (auto simp: nth_append)
      from same[OF m this] show ?thesis using j i by (auto simp: nth_append)
    qed
  qed
  show ?thesis unfolding roomsInv_def using 1 2 3 4 5 nr by blast
qed

lemma roomsInv_new:
  assumes inv: "roomsInv tau s e dn dep R nr"
    and b: "b \<notin> set dn"
  shows "roomsInv tau s e (dn @ [b]) (dep(b := nr + 1)) (insert b R) (nr + 1)"
proof -
  from inv have R: "R \<subseteq> set dn" and inj: "inj_on dep R" and img: "dep ` R = {0..nr}"
    and nr: "0 \<le> nr"
    and last: "\<forall>p\<in>set dn. \<exists>r\<in>R. dep r = dep p \<and> (p = r \<or> e p \<le> s r + tau)"
    and pw: "\<forall>i j. i < j \<and> j < length dn \<and> dep (dn ! i) = dep (dn ! j)
         \<longrightarrow> e (dn ! i) \<le> s (dn ! j) + tau"
    by (auto simp: roomsInv_def)
  let ?dep = "dep(b := nr + 1)" and ?R = "insert b R"
  have bR: "b \<notin> R" using R b by auto
  have rng: "\<And>p. p \<in> set dn \<Longrightarrow> dep p \<le> nr" using roomsInv_range[OF inv] by auto
  have rngR: "\<And>p. p \<in> R \<Longrightarrow> dep p \<le> nr" using rng R by auto
  have 1: "?R \<subseteq> set (dn @ [b])" using R by auto
  have 2: "inj_on ?dep ?R"
  proof (rule inj_onI)
    fix x y assume x: "x \<in> ?R" and y: "y \<in> ?R" and eq: "?dep x = ?dep y"
    show "x = y"
    proof (cases "x = b"; cases "y = b")
      assume "x = b" "y \<noteq> b"
      with y eq have "y \<in> R" "dep y = nr + 1" by auto
      with rngR[of y] show ?thesis by auto
    next
      assume "x \<noteq> b" "y = b"
      with x eq have "x \<in> R" "dep x = nr + 1" by auto
      with rngR[of x] show ?thesis by auto
    next
      assume "x \<noteq> b" "y \<noteq> b"
      with x y eq have "x \<in> R" "y \<in> R" "dep x = dep y" by auto
      with inj show ?thesis by (auto dest: inj_onD)
    qed simp
  qed
  have 3: "?dep ` ?R = {0..nr + 1}"
  proof -
    have "?dep ` ?R = insert (nr + 1) (dep ` R)" using bR by auto
    also have "\<dots> = {0..nr + 1}" using img nr by auto
    finally show ?thesis .
  qed
  have 4: "\<forall>p\<in>set (dn @ [b]). \<exists>r\<in>?R. ?dep r = ?dep p \<and> (p = r \<or> e p \<le> s r + tau)"
  proof
    fix p assume p: "p \<in> set (dn @ [b])"
    show "\<exists>r\<in>?R. ?dep r = ?dep p \<and> (p = r \<or> e p \<le> s r + tau)"
    proof (cases "p = b")
      case True then show ?thesis by auto
    next
      case False
      with p have pd: "p \<in> set dn" by auto
      from last pd obtain r where r: "r \<in> R" "dep r = dep p" "p = r \<or> e p \<le> s r + tau" by blast
      moreover have "r \<noteq> b" using r(1) bR by auto
      ultimately show ?thesis using \<open>p \<noteq> b\<close> by (intro bexI[of _ r]) auto
    qed
  qed
  have 5: "\<forall>i j. i < j \<and> j < length (dn @ [b]) \<and> ?dep ((dn @ [b]) ! i) = ?dep ((dn @ [b]) ! j)
         \<longrightarrow> e ((dn @ [b]) ! i) \<le> s ((dn @ [b]) ! j) + tau"
  proof (intro allI impI)
    fix i j assume h: "i < j \<and> j < length (dn @ [b]) \<and> ?dep ((dn @ [b]) ! i) = ?dep ((dn @ [b]) ! j)"
    show "e ((dn @ [b]) ! i) \<le> s ((dn @ [b]) ! j) + tau"
    proof (cases "j < length dn")
      case True
      with h have i: "i < length dn" by auto
      have "dn ! i \<in> set dn" "dn ! j \<in> set dn" using i True by auto
      then have "dn ! i \<noteq> b" "dn ! j \<noteq> b" using b by auto
      with h True i pw show ?thesis by (auto simp: nth_append)
    next
      case False
      with h have j: "j = length dn" and i: "i < length dn" by auto
      have m: "dn ! i \<in> set dn" using i by auto
      then have "dn ! i \<noteq> b" using b by auto
      with h j i have "dep (dn ! i) = nr + 1" by (auto simp: nth_append)
      with rng[OF m] show ?thesis by auto
    qed
  qed
  show ?thesis unfolding roomsInv_def using 1 2 3 4 5 nr by auto
qed

lemma cliqueInv_init: "cliqueInv tau s e [h] 0"
  unfolding cliqueInv_def by (intro exI[of _ "{h}"]) auto

lemma cliqueInv_reuse: "cliqueInv tau s e dn nr \<Longrightarrow> cliqueInv tau s e (dn @ [b]) nr"
  unfolding cliqueInv_def by fastforce

lemma roomsInv_card: "roomsInv tau s e dn dep R nr \<Longrightarrow> int (card R) = nr + 1"
proof -
  assume inv: "roomsInv tau s e dn dep R nr"
  then have "inj_on dep R" "dep ` R = {0..nr}" "0 \<le> nr" by (auto simp: roomsInv_def)
  then have "card R = card {0..nr}" by (metis card_image)
  then show ?thesis using \<open>0 \<le> nr\<close> by simp
qed

lemma cliqueInv_new:
  assumes inv: "roomsInv tau s e dn dep R nr"
    and b: "b \<notin> set dn" and srt: "\<forall>p\<in>set dn. s p \<le> s b"
    and occ: "\<forall>r\<in>R. s b + tau < e r" and valid: "s b < e b" and tau: "tau \<le> 0"
  shows "cliqueInv tau s e (dn @ [b]) (nr + 1)"
proof -
  from inv have R: "R \<subseteq> set dn" by (auto simp: roomsInv_def)
  have fin: "finite R" using R by (meson List.finite_set finite_subset)
  have bR: "b \<notin> R" using R b by auto
  have c: "int (card (insert b R)) = nr + 1 + 1"
    using roomsInv_card[OF inv] fin bR by simp
  have st: "\<And>a. a \<in> insert b R \<Longrightarrow> s a \<le> s b \<and> s b + tau < e a"
    using srt occ valid tau R by auto
  have "\<forall>a\<in>insert b R. \<forall>c\<in>insert b R. a \<noteq> c \<longrightarrow> max (s a) (s c) + tau < min (e a) (e c)"
  proof (intro ballI impI)
    fix a c assume "a \<in> insert b R" "c \<in> insert b R"
    from st[OF this(1)] st[OF this(2)]
    show "max (s a) (s c) + tau < min (e a) (e c)" by auto
  qed
  moreover have "insert b R \<subseteq> set (dn @ [b])" using R by auto
  ultimately show ?thesis unfolding cliqueInv_def using c by blast
qed

lemma findRoom_fold_Some:
  "fst (fold (\<lambda>k (idx, m). if P k \<and> d k < m then (Some k, d k) else (idx, m)) ks (Some i, m0)) \<noteq> None"
  by (induction ks arbitrary: i m0) auto

lemma findRoom_fold_None:
  "fst (fold (\<lambda>k (idx, m). if P k \<and> d k < m then (Some k, d k) else (idx, m)) ks (None, m0)) = None
   \<Longrightarrow> k \<in> set ks \<Longrightarrow> \<not> (P k \<and> d k < m0)"
proof (induction ks arbitrary: m0)
  case Nil
  then show ?case by simp
next
  case (Cons a ks)
  show ?case
  proof (cases "P a \<and> d a < m0")
    case True
    with Cons.prems(1) findRoom_fold_Some[of P d ks a "d a"] show ?thesis by simp
  next
    case False
    with Cons show ?thesis by auto
  qed
qed

lemma findRoom_fold_SomeD:
  "fst (fold (\<lambda>k (idx, m). if P k \<and> d k < m then (Some k, d k) else (idx, m)) ks (idx0, m0)) = Some k
   \<Longrightarrow> idx0 = Some k \<or> (k \<in> set ks \<and> P k)"
proof (induction ks arbitrary: idx0 m0)
  case Nil
  then show ?case by simp
next
  case (Cons a ks)
  show ?case
  proof (cases "P a \<and> d a < m0")
    case True
    with Cons.prems have "fst (fold (\<lambda>k (idx, m). if P k \<and> d k < m then (Some k, d k) else (idx, m)) ks (Some a, d a)) = Some k"
      by simp
    from Cons.IH[OF this] True show ?thesis by auto
  next
    case False
    with Cons.prems have "fst (fold (\<lambda>k (idx, m). if P k \<and> d k < m then (Some k, d k) else (idx, m)) ks (idx0, m0)) = Some k"
      by simp
    from Cons.IH[OF this] show ?thesis by auto
  qed
qed

lemma findRoom_eq:
  "findRoom tol bs buf block =
     fold (\<lambda>k (idx, m). if (endMin (bs ! (buf ! k)) \<le> startMin block + tol) \<and> depth (bs ! (buf ! k)) < m
        then (Some k, depth (bs ! (buf ! k))) else (idx, m)) [0..<length buf] (None, INT_MAX)"
  unfolding findRoom_def Let_def by simp

lemma findRoom_None:
  assumes "fst (findRoom tol bs buf block) = None" and "k < length buf"
    and "depth (bs ! (buf ! k)) < INT_MAX"
  shows "startMin block + tol < endMin (bs ! (buf ! k))"
proof -
  have "k \<in> set [0..<length buf]" using assms(2) by simp
  from findRoom_fold_None[OF assms(1)[unfolded findRoom_eq] this] assms(3)
  show ?thesis by auto
qed

lemma findRoom_Some:
  assumes "fst (findRoom tol bs buf block) = Some k"
  shows "k < length buf \<and> endMin (bs ! (buf ! k)) \<le> startMin block + tol"
  using findRoom_fold_SomeD[OF assms[unfolded findRoom_eq]] by auto

subsection \<open>The loops of S1 keep the rooms invariant\<close>

lemma frameDepth_refl: "frameDepth bs bs"
  by (simp add: frameDepth_def)

lemma frameDepth_update:
  assumes "frameDepth bs0 bs"
  shows "frameDepth bs0 (bs[b := (bs ! b)\<lparr>depth := d\<rparr>])"
proof -
  from assms have len: "length bs = length bs0"
    and fr: "\<And>i. i < length bs0 \<Longrightarrow> bs ! i = (bs0 ! i)\<lparr>depth := depth (bs ! i)\<rparr>"
    by (auto simp: frameDepth_def)
  have "\<And>i. i < length bs0 \<Longrightarrow> bs[b := (bs ! b)\<lparr>depth := d\<rparr>] ! i
      = (bs0 ! i)\<lparr>depth := depth (bs[b := (bs ! b)\<lparr>depth := d\<rparr>] ! i)\<rparr>"
  proof -
    fix i assume i: "i < length bs0"
    show "bs[b := (bs ! b)\<lparr>depth := d\<rparr>] ! i
      = (bs0 ! i)\<lparr>depth := depth (bs[b := (bs ! b)\<lparr>depth := d\<rparr>] ! i)\<rparr>"
    proof (cases "i = b")
      case True
      have "(bs ! b)\<lparr>depth := d\<rparr> = ((bs0 ! b)\<lparr>depth := depth (bs ! b)\<rparr>)\<lparr>depth := d\<rparr>"
        using fr[OF i] True by simp
      then show ?thesis using True i len by simp
    next
      case False
      then show ?thesis using fr[OF i] by simp
    qed
  qed
  then show ?thesis using len by (simp add: frameDepth_def)
qed

lemma frameDepth_start: "frameDepth bs0 bs \<Longrightarrow> i < length bs0 \<Longrightarrow> startMin (bs ! i) = startMin (bs0 ! i)"
proof -
  assume "frameDepth bs0 bs" "i < length bs0"
  then have "bs ! i = (bs0 ! i)\<lparr>depth := depth (bs ! i)\<rparr>" by (simp add: frameDepth_def)
  then have "startMin (bs ! i) = startMin ((bs0 ! i)\<lparr>depth := depth (bs ! i)\<rparr>)" by simp
  then show ?thesis by simp
qed

lemma frameDepth_end: "frameDepth bs0 bs \<Longrightarrow> i < length bs0 \<Longrightarrow> endMin (bs ! i) = endMin (bs0 ! i)"
proof -
  assume "frameDepth bs0 bs" "i < length bs0"
  then have "bs ! i = (bs0 ! i)\<lparr>depth := depth (bs ! i)\<rparr>" by (simp add: frameDepth_def)
  then have "endMin (bs ! i) = endMin ((bs0 ! i)\<lparr>depth := depth (bs ! i)\<rparr>)" by simp
  then show ?thesis by simp
qed

lemma depth_update_fun:
  "b < length bs \<Longrightarrow> (\<lambda>i. depth (bs[b := (bs ! b)\<lparr>depth := d\<rparr>] ! i)) = (\<lambda>i. depth (bs ! i))(b := d)"
  by (auto simp: fun_eq_iff nth_list_update)

lemma bufInv_distinct: "bufInv bs buf nr \<Longrightarrow> distinct buf"
  unfolding bufInv_def distinct_conv_nth by (metis of_nat_eq_iff)

lemma s1Inv_step:
  assumes inv: "s1Inv tau bs0 dn bs R nr" and b: "b < length bs0" "b \<notin> set dn"
    and ri: "roomsInv tau (\<lambda>i. startMin (bs0 ! i)) (\<lambda>i. endMin (bs0 ! i)) (dn @ [b])
          ((\<lambda>i. depth (bs ! i))(b := d)) R' nr'"
  shows "s1Inv tau bs0 (dn @ [b]) (bs[b := (bs ! b)\<lparr>depth := d\<rparr>]) R' nr'"
proof -
  from inv have fr: "frameDepth bs0 bs" and len: "length bs = length bs0"
    and dn: "set dn \<subseteq> {..<length bs0}"
    and un: "\<forall>i<length bs0. i \<notin> set dn \<longrightarrow> depth (bs ! i) = depth (bs0 ! i)"
    by (auto simp: s1Inv_def frameDepth_def)
  have eq: "(\<lambda>i. depth (bs[b := (bs ! b)\<lparr>depth := d\<rparr>] ! i)) = (\<lambda>i. depth (bs ! i))(b := d)"
    using b len by (intro depth_update_fun) simp
  have 1: "frameDepth bs0 (bs[b := (bs ! b)\<lparr>depth := d\<rparr>])" by (rule frameDepth_update[OF fr])
  have 2: "set (dn @ [b]) \<subseteq> {..<length bs0}" using dn b by auto
  have 3: "\<forall>i<length bs0. i \<notin> set (dn @ [b]) \<longrightarrow> depth (bs[b := (bs ! b)\<lparr>depth := d\<rparr>] ! i) = depth (bs0 ! i)"
    using un by auto
  show ?thesis unfolding s1Inv_def eq using 1 2 3 ri by blast
qed

lemma s1Inv_new:
  assumes inv: "s1Inv tau bs0 dn bs R nr" and b: "b < length bs0" "b \<notin> set dn"
  shows "s1Inv tau bs0 (dn @ [b]) (bs[b := (bs ! b)\<lparr>depth := nr + 1\<rparr>]) (insert b R) (nr + 1)"
proof -
  have "roomsInv tau (\<lambda>i. startMin (bs0 ! i)) (\<lambda>i. endMin (bs0 ! i)) dn (\<lambda>i. depth (bs ! i)) R nr"
    using inv by (simp add: s1Inv_def)
  from roomsInv_new[OF this b(2)] show ?thesis by (rule s1Inv_step[OF inv b])
qed

lemma s1Inv_reuse:
  assumes inv: "s1Inv tau bs0 dn bs R nr" and b: "b < length bs0" "b \<notin> set dn"
    and r0: "r0 \<in> R" and free: "endMin (bs ! r0) \<le> startMin (bs ! b) + tau"
    and srt: "\<forall>p\<in>set dn. startMin (bs0 ! p) \<le> startMin (bs0 ! b)"
  shows "s1Inv tau bs0 (dn @ [b]) (bs[b := (bs ! b)\<lparr>depth := depth (bs ! r0)\<rparr>]) (insert b (R - {r0})) nr"
proof -
  from inv have fr: "frameDepth bs0 bs"
    and ri: "roomsInv tau (\<lambda>i. startMin (bs0 ! i)) (\<lambda>i. endMin (bs0 ! i)) dn (\<lambda>i. depth (bs ! i)) R nr"
    by (auto simp: s1Inv_def)
  from inv have R: "R \<subseteq> set dn" and dn: "set dn \<subseteq> {..<length bs0}" by (auto simp: s1Inv_def roomsInv_def)
  have r0l: "r0 < length bs0" using r0 R dn by auto
  have free': "endMin (bs0 ! r0) \<le> startMin (bs0 ! b) + tau"
    using free frameDepth_start[OF fr b(1)] frameDepth_end[OF fr r0l] by simp
  from roomsInv_reuse[OF ri r0, of b, OF free' b(2) srt]
  show ?thesis by (rule s1Inv_step[OF inv b])
qed

lemma isStep_inv:
  assumes inv: "s1Inv tau bs0 dn bs (set buf) nr" and bi: "bufInv bs buf nr"
    and b: "b < length bs0" "b \<notin> set dn"
    and srt: "\<forall>p\<in>set dn. startMin (bs0 ! p) \<le> startMin (bs0 ! b)"
    and step: "isStep tau b (bs, buf, nr) = (bs', buf', nr')"
  shows "s1Inv tau bs0 (dn @ [b]) bs' (set buf') nr' \<and> bufInv bs' buf' nr'"
proof (cases "fst (findRoom tau bs buf (bs ! b))")
  case None
  with step have e: "bs' = bs[b := (bs ! b)\<lparr>depth := nr + 1\<rparr>]" "buf' = buf @ [b]" "nr' = nr + 1"
    by (auto simp: isStep_def)
  from inv have len: "length bs = length bs0" and R: "set buf \<subseteq> set dn" and nr: "0 \<le> nr"
    by (auto simp: s1Inv_def frameDepth_def roomsInv_def)
  have lb: "length buf = nat nr + 1" and dk: "\<And>k. k < length buf \<Longrightarrow> depth (bs ! (buf ! k)) = int k"
    using bi by (auto simp: bufInv_def)
  have nb: "\<And>k. k < length buf \<Longrightarrow> buf ! k \<noteq> b" using R b(2) nth_mem by blast
  have "\<And>k. k < length (buf @ [b]) \<Longrightarrow> depth (bs[b := (bs ! b)\<lparr>depth := nr + 1\<rparr>] ! ((buf @ [b]) ! k)) = int k"
  proof -
    fix k assume k: "k < length (buf @ [b])"
    show "depth (bs[b := (bs ! b)\<lparr>depth := nr + 1\<rparr>] ! ((buf @ [b]) ! k)) = int k"
    proof (cases "k < length buf")
      case True
      then show ?thesis using nb[OF True] dk[OF True] by (simp add: nth_append)
    next
      case False
      with k have "k = length buf" by simp
      then show ?thesis using b len lb nr by (simp add: nth_append)
    qed
  qed
  then have "bufInv bs' buf' nr'"
    unfolding bufInv_def e using lb nr by simp
  with s1Inv_new[OF inv b] e show ?thesis by simp
next
  case (Some k)
  with step have e: "bs' = bs[b := (bs ! b)\<lparr>depth := depth (bs ! (buf ! k))\<rparr>]" "buf' = buf[k := b]" "nr' = nr"
    by (auto simp: isStep_def)
  from findRoom_Some[OF Some] have k: "k < length buf" and free: "endMin (bs ! (buf ! k)) \<le> startMin (bs ! b) + tau"
    by auto
  from inv have len: "length bs = length bs0" and R: "set buf \<subseteq> set dn" and nr: "0 \<le> nr"
    by (auto simp: s1Inv_def frameDepth_def roomsInv_def)
  have lb: "length buf = nat nr + 1" and dk: "\<And>k. k < length buf \<Longrightarrow> depth (bs ! (buf ! k)) = int k"
    using bi by (auto simp: bufInv_def)
  have nb: "\<And>k. k < length buf \<Longrightarrow> buf ! k \<noteq> b" using R b(2) nth_mem by blast
  have d: "distinct buf" by (rule bufInv_distinct[OF bi])
  have sb: "set (buf[k := b]) = insert b (set buf - {buf ! k})"
    using k d by (simp add: set_update_distinct)
  have r0: "buf ! k \<in> set buf" using k by simp
  have "\<And>j. j < length (buf[k := b]) \<Longrightarrow>
     depth (bs[b := (bs ! b)\<lparr>depth := depth (bs ! (buf ! k))\<rparr>] ! (buf[k := b] ! j)) = int j"
  proof -
    fix j assume j: "j < length (buf[k := b])"
    then have j': "j < length buf" by simp
    show "depth (bs[b := (bs ! b)\<lparr>depth := depth (bs ! (buf ! k))\<rparr>] ! (buf[k := b] ! j)) = int j"
    proof (cases "j = k")
      case True
      then show ?thesis using k b len dk[OF k] by simp
    next
      case False
      then show ?thesis using nb[OF j'] dk[OF j'] by simp
    qed
  qed
  then have "bufInv bs' buf' nr'"
    unfolding bufInv_def e using lb by simp
  with s1Inv_reuse[OF inv b r0 free srt] e sb show ?thesis by simp
qed

lemma isStep_clique:
  assumes inv: "s1Inv tau bs0 dn bs (set buf) nr" and bi: "bufInv bs buf nr"
    and b: "b < length bs0" "b \<notin> set dn"
    and srt: "\<forall>p\<in>set dn. startMin (bs0 ! p) \<le> startMin (bs0 ! b)"
    and step: "isStep tau b (bs, buf, nr) = (bs', buf', nr')"
    and cl: "cliqueInv tau (\<lambda>i. startMin (bs0 ! i)) (\<lambda>i. endMin (bs0 ! i)) dn nr"
    and tau: "tau \<le> 0" and valid: "startMin (bs0 ! b) < endMin (bs0 ! b)"
    and N: "int (length bs0) \<le> INT_MAX"
  shows "cliqueInv tau (\<lambda>i. startMin (bs0 ! i)) (\<lambda>i. endMin (bs0 ! i)) (dn @ [b]) nr'"
proof (cases "fst (findRoom tau bs buf (bs ! b))")
  case None
  with step have e: "nr' = nr + 1" by (auto simp: isStep_def)
  from inv have fr: "frameDepth bs0 bs" and R: "set buf \<subseteq> set dn" and dn: "set dn \<subseteq> {..<length bs0}"
    and ri: "roomsInv tau (\<lambda>i. startMin (bs0 ! i)) (\<lambda>i. endMin (bs0 ! i)) dn (\<lambda>i. depth (bs ! i)) (set buf) nr"
    by (auto simp: s1Inv_def roomsInv_def)
  have "card (set buf) \<le> card {..<length bs0}" using R dn by (intro card_mono) auto
  then have lb: "length buf \<le> length bs0" using bufInv_distinct[OF bi] by (simp add: distinct_card)
  have occ: "\<forall>r\<in>set buf. startMin (bs0 ! b) + tau < endMin (bs0 ! r)"
  proof
    fix r assume rb: "r \<in> set buf"
    then obtain k where k: "k < length buf" "buf ! k = r" by (auto simp: in_set_conv_nth)
    have "depth (bs ! (buf ! k)) = int k" using bi k by (auto simp: bufInv_def)
    then have "depth (bs ! (buf ! k)) < INT_MAX" using k lb N by auto
    from findRoom_None[OF None k(1) this] have "startMin (bs ! b) + tau < endMin (bs ! r)" using k by simp
    moreover have "r < length bs0" using rb R dn by auto
    ultimately show "startMin (bs0 ! b) + tau < endMin (bs0 ! r)"
      using frameDepth_start[OF fr b(1)] frameDepth_end[OF fr, of r] by simp
  qed
  show ?thesis unfolding e
    by (rule cliqueInv_new[OF ri b(2) srt occ valid tau])
next
  case (Some k)
  with step have e: "nr' = nr" by (auto simp: isStep_def)
  show ?thesis unfolding e by (rule cliqueInv_reuse[OF cl])
qed

lemma fold_isStep_inv:
  assumes "s1Inv tau bs0 dn bs (set buf) nr" and "bufInv bs buf nr"
    and "distinct (dn @ rest)" and "set rest \<subseteq> {..<length bs0}"
    and "sorted_wrt (\<lambda>p q. startMin (bs0 ! p) \<le> startMin (bs0 ! q)) (dn @ rest)"
    and "fold (isStep tau) rest (bs, buf, nr) = (bs', buf', nr')"
  shows "s1Inv tau bs0 (dn @ rest) bs' (set buf') nr' \<and> bufInv bs' buf' nr'"
  using assms
proof (induction rest arbitrary: dn bs buf nr)
  case Nil
  then show ?case by simp
next
  case (Cons b rest)
  obtain bs1 buf1 nr1 where st: "isStep tau b (bs, buf, nr) = (bs1, buf1, nr1)"
    by (metis prod_cases3)
  have b: "b < length bs0" "b \<notin> set dn" using Cons.prems(3,4) by auto
  have srt: "\<forall>p\<in>set dn. startMin (bs0 ! p) \<le> startMin (bs0 ! b)"
    using Cons.prems(5) by (auto simp: sorted_wrt_append)
  from isStep_inv[OF Cons.prems(1,2) b srt st]
  have i1: "s1Inv tau bs0 (dn @ [b]) bs1 (set buf1) nr1" and i2: "bufInv bs1 buf1 nr1" by auto
  have f: "fold (isStep tau) rest (bs1, buf1, nr1) = (bs', buf', nr')"
    using Cons.prems(6) st by simp
  have "s1Inv tau bs0 ((dn @ [b]) @ rest) bs' (set buf') nr' \<and> bufInv bs' buf' nr'"
    using Cons.prems(3,4,5) by (intro Cons.IH[OF i1 i2 _ _ _ f]) auto
  then show ?case by simp
qed

lemma fold_isStep_clique:
  assumes "s1Inv tau bs0 dn bs (set buf) nr" and "bufInv bs buf nr"
    and "distinct (dn @ rest)" and "set rest \<subseteq> {..<length bs0}"
    and "sorted_wrt (\<lambda>p q. startMin (bs0 ! p) \<le> startMin (bs0 ! q)) (dn @ rest)"
    and "fold (isStep tau) rest (bs, buf, nr) = (bs', buf', nr')"
    and "cliqueInv tau (\<lambda>i. startMin (bs0 ! i)) (\<lambda>i. endMin (bs0 ! i)) dn nr"
    and "tau \<le> 0" and "\<forall>b\<in>set rest. startMin (bs0 ! b) < endMin (bs0 ! b)"
    and "int (length bs0) \<le> INT_MAX"
  shows "cliqueInv tau (\<lambda>i. startMin (bs0 ! i)) (\<lambda>i. endMin (bs0 ! i)) (dn @ rest) nr'"
  using assms
proof (induction rest arbitrary: dn bs buf nr)
  case Nil
  then show ?case by simp
next
  case (Cons b rest)
  obtain bs1 buf1 nr1 where st: "isStep tau b (bs, buf, nr) = (bs1, buf1, nr1)"
    by (metis prod_cases3)
  have b: "b < length bs0" "b \<notin> set dn" using Cons.prems(3,4) by auto
  have srt: "\<forall>p\<in>set dn. startMin (bs0 ! p) \<le> startMin (bs0 ! b)"
    using Cons.prems(5) by (auto simp: sorted_wrt_append)
  from isStep_inv[OF Cons.prems(1,2) b srt st]
  have i1: "s1Inv tau bs0 (dn @ [b]) bs1 (set buf1) nr1" and i2: "bufInv bs1 buf1 nr1" by auto
  have v: "startMin (bs0 ! b) < endMin (bs0 ! b)" using Cons.prems(9) by simp
  have c1: "cliqueInv tau (\<lambda>i. startMin (bs0 ! i)) (\<lambda>i. endMin (bs0 ! i)) (dn @ [b]) nr1"
    by (rule isStep_clique[OF Cons.prems(1,2) b srt st Cons.prems(7,8) v Cons.prems(10)])
  have f: "fold (isStep tau) rest (bs1, buf1, nr1) = (bs', buf', nr')"
    using Cons.prems(6) st by simp
  have "cliqueInv tau (\<lambda>i. startMin (bs0 ! i)) (\<lambda>i. endMin (bs0 ! i)) ((dn @ [b]) @ rest) nr'"
    using Cons.prems(3,4,5,8,9,10) by (intro Cons.IH[OF i1 i2 _ _ _ f c1]) auto
  then show ?case by simp
qed

lemma queueTop_fold:
  "fold (\<lambda>y x. if roomComp (bs ! x) (bs ! y) then y else x) ys x0 \<in> insert x0 (set ys) \<and>
   (\<forall>y\<in>insert x0 (set ys).
      endMin (bs ! fold (\<lambda>y x. if roomComp (bs ! x) (bs ! y) then y else x) ys x0) \<le> endMin (bs ! y))"
proof (induction ys arbitrary: x0)
  case Nil
  then show ?case by simp
next
  case (Cons y ys)
  let ?x1 = "if roomComp (bs ! x0) (bs ! y) then y else x0"
  have x1: "endMin (bs ! ?x1) \<le> endMin (bs ! x0) \<and> endMin (bs ! ?x1) \<le> endMin (bs ! y)"
    by (auto simp: roomComp_def Let_def split: if_splits)
  from Cons.IH[of ?x1] x1 show ?case by (auto split: if_splits)
qed

lemma queueTop_mem: "q \<noteq> [] \<Longrightarrow> queueTop bs q \<in> set q"
  using queueTop_fold[of bs "tl q" "hd q"] unfolding queueTop_def
  by (cases q) auto

lemma queueTop_min: "q \<noteq> [] \<Longrightarrow> y \<in> set q \<Longrightarrow> endMin (bs ! queueTop bs q) \<le> endMin (bs ! y)"
  using queueTop_fold[of bs "tl q" "hd q"] unfolding queueTop_def
  by (cases q) auto

lemma is2Step_inv:
  assumes inv: "s1Inv (- t) bs0 dn bs (set q) nr" and dq: "distinct q"
    and b: "b < length bs0" "b \<notin> set dn"
    and srt: "\<forall>p\<in>set dn. startMin (bs0 ! p) \<le> startMin (bs0 ! b)"
    and step: "is2Step t b (bs, q, nr) = (bs', q', nr')"
  shows "s1Inv (- t) bs0 (dn @ [b]) bs' (set q') nr' \<and> distinct q'"
proof -
  from inv have R: "set q \<subseteq> set dn"
    and ri: "roomsInv (- t) (\<lambda>i. startMin (bs0 ! i)) (\<lambda>i. endMin (bs0 ! i)) dn (\<lambda>i. depth (bs ! i)) (set q) nr"
    by (auto simp: s1Inv_def roomsInv_def)
  have bq: "b \<notin> set q" using R b by auto
  show ?thesis
  proof (cases "endMin (bs ! queueTop bs q) + t > startMin (bs ! b)")
    case True
    with step have e: "bs' = bs[b := (bs ! b)\<lparr>depth := nr + 1\<rparr>]" "q' = q @ [b]" "nr' = nr + 1"
      by (auto simp: is2Step_def Let_def)
    show ?thesis using s1Inv_new[OF inv b] e dq bq by simp
  next
    case False
    with step have e: "bs' = bs[b := (bs ! b)\<lparr>depth := depth (bs ! queueTop bs q)\<rparr>]"
      "q' = remove1 (queueTop bs q) q @ [b]" "nr' = nr"
      by (auto simp: is2Step_def Let_def)
    have "int (card (set q)) = nr + 1" by (rule roomsInv_card[OF ri])
    moreover have "0 \<le> nr" using ri by (simp add: roomsInv_def)
    ultimately have ne: "q \<noteq> []" by auto
    have r0: "queueTop bs q \<in> set q" by (rule queueTop_mem[OF ne])
    have free: "endMin (bs ! queueTop bs q) \<le> startMin (bs ! b) + (- t)" using False by simp
    have sq: "set q' = insert b (set q - {queueTop bs q})" using e dq by auto
    have "distinct q'" using e dq bq by auto
    with s1Inv_reuse[OF inv b r0 free srt] e sq show ?thesis by simp
  qed
qed

lemma is2Step_clique:
  assumes inv: "s1Inv (- t) bs0 dn bs (set q) nr" and dq: "distinct q"
    and b: "b < length bs0" "b \<notin> set dn"
    and srt: "\<forall>p\<in>set dn. startMin (bs0 ! p) \<le> startMin (bs0 ! b)"
    and step: "is2Step t b (bs, q, nr) = (bs', q', nr')"
    and cl: "cliqueInv (- t) (\<lambda>i. startMin (bs0 ! i)) (\<lambda>i. endMin (bs0 ! i)) dn nr"
    and tau: "- t \<le> 0" and valid: "startMin (bs0 ! b) < endMin (bs0 ! b)"
  shows "cliqueInv (- t) (\<lambda>i. startMin (bs0 ! i)) (\<lambda>i. endMin (bs0 ! i)) (dn @ [b]) nr'"
proof (cases "endMin (bs ! queueTop bs q) + t > startMin (bs ! b)")
  case True
  with step have e: "nr' = nr + 1" by (auto simp: is2Step_def Let_def)
  from inv have fr: "frameDepth bs0 bs" and R: "set q \<subseteq> set dn" and dn: "set dn \<subseteq> {..<length bs0}"
    and ri: "roomsInv (- t) (\<lambda>i. startMin (bs0 ! i)) (\<lambda>i. endMin (bs0 ! i)) dn (\<lambda>i. depth (bs ! i)) (set q) nr"
    by (auto simp: s1Inv_def roomsInv_def)
  have occ: "\<forall>r\<in>set q. startMin (bs0 ! b) + (- t) < endMin (bs0 ! r)"
  proof
    fix r assume rq: "r \<in> set q"
    then have ne: "q \<noteq> []" by auto
    have "endMin (bs ! queueTop bs q) \<le> endMin (bs ! r)" by (rule queueTop_min[OF ne rq])
    with True have "startMin (bs ! b) - t < endMin (bs ! r)" by simp
    moreover have "r < length bs0" using rq R dn by auto
    ultimately show "startMin (bs0 ! b) + (- t) < endMin (bs0 ! r)"
      using frameDepth_start[OF fr b(1)] frameDepth_end[OF fr, of r] by simp
  qed
  show ?thesis unfolding e
    by (rule cliqueInv_new[OF ri b(2) srt occ valid tau])
next
  case False
  with step have e: "nr' = nr" by (auto simp: is2Step_def Let_def)
  show ?thesis unfolding e by (rule cliqueInv_reuse[OF cl])
qed

lemma fold_is2Step_inv:
  assumes "s1Inv (- t) bs0 dn bs (set q) nr" and "distinct q"
    and "distinct (dn @ rest)" and "set rest \<subseteq> {..<length bs0}"
    and "sorted_wrt (\<lambda>p q. startMin (bs0 ! p) \<le> startMin (bs0 ! q)) (dn @ rest)"
    and "fold (is2Step t) rest (bs, q, nr) = (bs', q', nr')"
  shows "s1Inv (- t) bs0 (dn @ rest) bs' (set q') nr' \<and> distinct q'"
  using assms
proof (induction rest arbitrary: dn bs q nr)
  case Nil
  then show ?case by simp
next
  case (Cons b rest)
  obtain bs1 q1 nr1 where st: "is2Step t b (bs, q, nr) = (bs1, q1, nr1)"
    by (metis prod_cases3)
  have b: "b < length bs0" "b \<notin> set dn" using Cons.prems(3,4) by auto
  have srt: "\<forall>p\<in>set dn. startMin (bs0 ! p) \<le> startMin (bs0 ! b)"
    using Cons.prems(5) by (auto simp: sorted_wrt_append)
  from is2Step_inv[OF Cons.prems(1,2) b srt st]
  have i1: "s1Inv (- t) bs0 (dn @ [b]) bs1 (set q1) nr1" and i2: "distinct q1" by auto
  have f: "fold (is2Step t) rest (bs1, q1, nr1) = (bs', q', nr')"
    using Cons.prems(6) st by simp
  have "s1Inv (- t) bs0 ((dn @ [b]) @ rest) bs' (set q') nr' \<and> distinct q'"
    using Cons.prems(3,4,5) by (intro Cons.IH[OF i1 i2 _ _ _ f]) auto
  then show ?case by simp
qed

lemma fold_is2Step_clique:
  assumes "s1Inv (- t) bs0 dn bs (set q) nr" and "distinct q"
    and "distinct (dn @ rest)" and "set rest \<subseteq> {..<length bs0}"
    and "sorted_wrt (\<lambda>p q. startMin (bs0 ! p) \<le> startMin (bs0 ! q)) (dn @ rest)"
    and "fold (is2Step t) rest (bs, q, nr) = (bs', q', nr')"
    and "cliqueInv (- t) (\<lambda>i. startMin (bs0 ! i)) (\<lambda>i. endMin (bs0 ! i)) dn nr"
    and "- t \<le> 0" and "\<forall>b\<in>set rest. startMin (bs0 ! b) < endMin (bs0 ! b)"
  shows "cliqueInv (- t) (\<lambda>i. startMin (bs0 ! i)) (\<lambda>i. endMin (bs0 ! i)) (dn @ rest) nr'"
  using assms
proof (induction rest arbitrary: dn bs q nr)
  case Nil
  then show ?case by simp
next
  case (Cons b rest)
  obtain bs1 q1 nr1 where st: "is2Step t b (bs, q, nr) = (bs1, q1, nr1)"
    by (metis prod_cases3)
  have b: "b < length bs0" "b \<notin> set dn" using Cons.prems(3,4) by auto
  have srt: "\<forall>p\<in>set dn. startMin (bs0 ! p) \<le> startMin (bs0 ! b)"
    using Cons.prems(5) by (auto simp: sorted_wrt_append)
  from is2Step_inv[OF Cons.prems(1,2) b srt st]
  have i1: "s1Inv (- t) bs0 (dn @ [b]) bs1 (set q1) nr1" and i2: "distinct q1" by auto
  have v: "startMin (bs0 ! b) < endMin (bs0 ! b)" using Cons.prems(9) by simp
  have c1: "cliqueInv (- t) (\<lambda>i. startMin (bs0 ! i)) (\<lambda>i. endMin (bs0 ! i)) (dn @ [b]) nr1"
    by (rule is2Step_clique[OF Cons.prems(1,2) b srt st Cons.prems(7,8) v])
  have f: "fold (is2Step t) rest (bs1, q1, nr1) = (bs', q', nr')"
    using Cons.prems(6) st by simp
  have "cliqueInv (- t) (\<lambda>i. startMin (bs0 ! i)) (\<lambda>i. endMin (bs0 ! i)) ((dn @ [b]) @ rest) nr'"
    using Cons.prems(3,4,5,8,9) by (intro Cons.IH[OF i1 i2 _ _ _ f c1]) auto
  then show ?case by simp
qed

subsection \<open>S1 from the set-up of \<open>compute\<close>\<close>

lemma length_setupBlocks [simp]: "length (blocks (setupBlocks arr)) = length arr"
  by (simp add: setupBlocks_def)

lemma nth_setupBlocks: "i < length arr \<Longrightarrow> blocks (setupBlocks arr) ! i = initBlock i (arr ! i)"
  by (simp add: setupBlocks_def)

lemma startTimeLess_le: "startTimeLess a b \<Longrightarrow> startMin a \<le> startMin b"
  by (auto simp: startTimeLess_def Let_def split: if_splits)

lemma startTimeLess_ge: "\<not> startTimeLess a b \<Longrightarrow> startMin b \<le> startMin a"
  by (auto simp: startTimeLess_def Let_def split: if_splits)

lemma sortByStartTime_order:
  "orderOK (blocks (setupBlocks arr)) (blocksReordered (sortByStartTime (setupBlocks arr)))"
proof -
  let ?st = "setupBlocks arr"
  let ?lt = "\<lambda>p q. startTimeLess (blocks ?st ! p) (blocks ?st ! q)"
  have o: "blocksReordered (sortByStartTime ?st) = sort_by ?lt [0..<length arr]"
    by (simp add: sortByStartTime_def setupBlocks_def)
  have "sorted_wrt (\<lambda>p q. startMin (blocks ?st ! p) \<le> startMin (blocks ?st ! q)) (sort_by ?lt [0..<length arr])"
    by (rule sorted_sort_by) (auto intro: startTimeLess_le startTimeLess_ge)
  then show ?thesis unfolding orderOK_def o
    by (auto simp: distinct_sort_by set_sort_by)
qed

lemma blocks_sortByStartTime [simp]: "blocks (sortByStartTime st) = blocks st"
  by (simp add: sortByStartTime_def)

lemma matrix_sortByStartTime [simp]: "matrix (sortByStartTime st) = matrix st"
  by (simp add: sortByStartTime_def)

lemma s1Inv_init:
  assumes "h < length bs0" and "depth (bs0 ! h) = 0"
  shows "s1Inv tau bs0 [h] bs0 {h} 0"
  using assms unfolding s1Inv_def roomsInv_def by (auto simp: frameDepth_refl)

lemma hd_tl_split: "xs \<noteq> [] \<Longrightarrow> xs = [hd xs] @ tl xs"
  by (cases xs) simp_all

lemma intervalScheduling_unfold:
  assumes "blocks st \<noteq> []"
    and "fold (isStep (isTolerance opts)) (tl (blocksReordered (sortByStartTime st)))
          (blocks (sortByStartTime st), [hd (blocksReordered (sortByStartTime st))], 0) = (bs, buf, nr)"
  shows "intervalScheduling opts st = ((sortByStartTime st)\<lparr>blocks := bs\<rparr>, nr + 1)"
  using assms unfolding intervalScheduling_def Let_def by simp

lemma intervalScheduling2_unfold:
  assumes "blocks st \<noteq> []"
    and "fold (is2Step (isTolerance opts)) (tl (blocksReordered (sortByStartTime st)))
          (blocks (sortByStartTime st), [hd (blocksReordered (sortByStartTime st))], 0) = (bs, q, nr)"
  shows "intervalScheduling2 opts st = ((sortByStartTime st)\<lparr>blocks := bs\<rparr>, nr + 1)"
  using assms unfolding intervalScheduling2_def Let_def by simp

lemma orderOK_split:
  assumes "orderOK bs0 ord" and "bs0 \<noteq> []"
  obtains h t where "ord = h # t" and "h < length bs0" and "distinct ([h] @ t)"
    and "set t \<subseteq> {..<length bs0}"
    and "sorted_wrt (\<lambda>p q. startMin (bs0 ! p) \<le> startMin (bs0 ! q)) ([h] @ t)"
proof -
  from assms(1) have dist: "distinct ord" and seto: "set ord = {..<length bs0}"
    and srt: "sorted_wrt (\<lambda>p q. startMin (bs0 ! p) \<le> startMin (bs0 ! q)) ord"
    unfolding orderOK_def by blast+
  have "0 \<in> {..<length bs0}" using assms(2) by simp
  then have "0 \<in> set ord" unfolding seto .
  then have "ord \<noteq> []" by fastforce
  then obtain h t where ht: "ord = h # t" using list.exhaust by blast
  have mem: "\<And>x. x \<in> set ord \<Longrightarrow> x < length bs0" unfolding seto by simp
  have 1: "h < length bs0" by (rule mem) (simp add: ht)
  have 2: "distinct ([h] @ t)" using dist unfolding ht by simp
  have 3: "set t \<subseteq> {..<length bs0}"
  proof
    fix x assume "x \<in> set t"
    then have "x \<in> set ord" by (simp add: ht)
    from mem[OF this] show "x \<in> {..<length bs0}" by simp
  qed
  have 4: "sorted_wrt (\<lambda>p q. startMin (bs0 ! p) \<le> startMin (bs0 ! q)) ([h] @ t)"
    using srt unfolding ht by simp
  show ?thesis by (rule that[OF ht 1 2 3 4])
qed

lemma s1_loop1_post:
  assumes ok: "orderOK bs0 ord" and ne: "bs0 \<noteq> []" and d0: "\<forall>i<length bs0. depth (bs0 ! i) = 0"
    and f: "fold (isStep tau) (tl ord) (bs0, [hd ord], 0) = (bs, buf, nr)"
  shows "s1Inv tau bs0 ord bs (set buf) nr"
proof -
  from orderOK_split[OF ok ne] obtain h t where ht: "ord = h # t" and h: "h < length bs0"
    and p3: "distinct ([h] @ t)" and p4: "set t \<subseteq> {..<length bs0}"
    and p5: "sorted_wrt (\<lambda>p q. startMin (bs0 ! p) \<le> startMin (bs0 ! q)) ([h] @ t)"
    by blast
  have dh: "depth (bs0 ! h) = 0" using d0 h by simp
  have init: "s1Inv tau bs0 [h] bs0 (set [h]) 0" using s1Inv_init[OF h dh] by simp
  have bi: "bufInv bs0 [h] 0" using dh by (simp add: bufInv_def)
  have f': "fold (isStep tau) t (bs0, [h], 0) = (bs, buf, nr)" using f unfolding ht by simp
  from fold_isStep_inv[OF init bi p3 p4 p5 f'] show ?thesis unfolding ht by simp
qed

lemma s1_loop2_post:
  assumes ok: "orderOK bs0 ord" and ne: "bs0 \<noteq> []" and d0: "\<forall>i<length bs0. depth (bs0 ! i) = 0"
    and f: "fold (is2Step t0) (tl ord) (bs0, [hd ord], 0) = (bs, q, nr)"
  shows "s1Inv (- t0) bs0 ord bs (set q) nr"
proof -
  from orderOK_split[OF ok ne] obtain h t where ht: "ord = h # t" and h: "h < length bs0"
    and p3: "distinct ([h] @ t)" and p4: "set t \<subseteq> {..<length bs0}"
    and p5: "sorted_wrt (\<lambda>p q. startMin (bs0 ! p) \<le> startMin (bs0 ! q)) ([h] @ t)"
    by blast
  have dh: "depth (bs0 ! h) = 0" using d0 h by simp
  have init: "s1Inv (- t0) bs0 [h] bs0 (set [h]) 0" using s1Inv_init[OF h dh] by simp
  have dq: "distinct [h]" by simp
  have f': "fold (is2Step t0) t (bs0, [h], 0) = (bs, q, nr)" using f unfolding ht by simp
  from fold_is2Step_inv[OF init dq p3 p4 p5 f'] show ?thesis unfolding ht by simp
qed

lemma depth_setupBlocks: "\<forall>i<length (blocks (setupBlocks arr)). depth (blocks (setupBlocks arr) ! i) = 0"
  by (simp add: nth_setupBlocks initBlock_def)

lemma stageS1_post:
  assumes ne: "arr \<noteq> []" and res: "stageS1 opts (setupBlocks arr) = (st, tot)"
  shows "\<exists>R. s1Inv (s1Tau opts) (blocks (setupBlocks arr)) (blocksReordered st) (blocks st) R (tot - 1)
     \<and> orderOK (blocks (setupBlocks arr)) (blocksReordered st) \<and> matrix st = matrix (setupBlocks arr)"
proof -
  define st0 where "st0 = setupBlocks arr"
  define st1 where "st1 = sortByStartTime st0"
  define bs0 where "bs0 = blocks st0"
  define ord where "ord = blocksReordered st1"
  have ne0: "bs0 \<noteq> []" using ne unfolding bs0_def st0_def by (simp add: setupBlocks_def)
  have ne1: "blocks st0 \<noteq> []" using ne0 by (simp add: bs0_def)
  have ok: "orderOK bs0 ord" unfolding bs0_def ord_def st1_def st0_def by (rule sortByStartTime_order)
  have d0: "\<forall>i<length bs0. depth (bs0 ! i) = 0" unfolding bs0_def st0_def by (rule depth_setupBlocks)
  have b1: "blocks st1 = bs0" unfolding st1_def bs0_def by simp
  have m1: "matrix st1 = matrix st0" unfolding st1_def by simp
  show ?thesis
  proof (cases "ISMethod opts = 1")
    case True
    obtain bs buf nr where f: "fold (isStep (isTolerance opts)) (tl ord) (bs0, [hd ord], 0) = (bs, buf, nr)"
      by (rule prod_cases3)
    have "intervalScheduling opts st0 = (st1\<lparr>blocks := bs\<rparr>, nr + 1)"
      unfolding st1_def by (rule intervalScheduling_unfold[OF ne1]) (use f in \<open>simp add: ord_def st1_def bs0_def\<close>)
    with res True have e: "st = st1\<lparr>blocks := bs\<rparr>" "tot = nr + 1"
      by (simp_all add: stageS1_def st0_def)
    have "s1Inv (isTolerance opts) bs0 ord bs (set buf) nr" by (rule s1_loop1_post[OF ok ne0 d0 f])
    then have "s1Inv (s1Tau opts) bs0 (blocksReordered st) (blocks st) (set buf) (tot - 1)"
      using True e by (simp add: s1Tau_def ord_def)
    moreover have "orderOK bs0 (blocksReordered st)" using ok e by (simp add: ord_def)
    moreover have "matrix st = matrix st0" using e m1 by simp
    ultimately show ?thesis unfolding bs0_def st0_def by blast
  next
    case False
    obtain bs q nr where f: "fold (is2Step (isTolerance opts)) (tl ord) (bs0, [hd ord], 0) = (bs, q, nr)"
      by (rule prod_cases3)
    have "intervalScheduling2 opts st0 = (st1\<lparr>blocks := bs\<rparr>, nr + 1)"
      unfolding st1_def by (rule intervalScheduling2_unfold[OF ne1]) (use f in \<open>simp add: ord_def st1_def bs0_def\<close>)
    with res False have e: "st = st1\<lparr>blocks := bs\<rparr>" "tot = nr + 1"
      by (simp_all add: stageS1_def st0_def)
    have "s1Inv (- isTolerance opts) bs0 ord bs (set q) nr" by (rule s1_loop2_post[OF ok ne0 d0 f])
    then have "s1Inv (s1Tau opts) bs0 (blocksReordered st) (blocks st) (set q) (tot - 1)"
      using False e by (simp add: s1Tau_def ord_def)
    moreover have "orderOK bs0 (blocksReordered st)" using ok e by (simp add: ord_def)
    moreover have "matrix st = matrix st0" using e m1 by simp
    ultimately show ?thesis unfolding bs0_def st0_def by blast
  qed
qed

lemma orderOK_mem: "orderOK bs ord \<Longrightarrow> x \<in> set ord \<longleftrightarrow> x < length bs"
  unfolding orderOK_def by blast

lemma s1Inv_length: "s1Inv tau bs0 dn bs R nr \<Longrightarrow> length bs = length bs0"
  by (simp add: s1Inv_def frameDepth_def)

lemma isStep_other:
  assumes "isStep tol b (bs, buf, nr) = (bs', buf', nr')" and "h \<noteq> b"
  shows "bs' ! h = bs ! h"
  using assms by (auto simp: isStep_def split: option.splits)

lemma fold_isStep_other:
  assumes "fold (isStep tol) rest (bs, buf, nr) = (bs', buf', nr')" and "h \<notin> set rest"
  shows "bs' ! h = bs ! h"
  using assms
proof (induction rest arbitrary: bs buf nr)
  case Nil
  then show ?case by simp
next
  case (Cons b rest)
  obtain bs1 buf1 nr1 where st: "isStep tol b (bs, buf, nr) = (bs1, buf1, nr1)" by (metis prod_cases3)
  have "bs1 ! h = bs ! h" by (rule isStep_other[OF st]) (use Cons.prems(2) in auto)
  moreover have "bs' ! h = bs1 ! h"
    by (rule Cons.IH[of bs1 buf1 nr1]) (use Cons.prems st in auto)
  ultimately show ?case by simp
qed

lemma is2Step_other:
  assumes "is2Step tol b (bs, q, nr) = (bs', q', nr')" and "h \<noteq> b"
  shows "bs' ! h = bs ! h"
  using assms by (auto simp: is2Step_def Let_def split: if_splits)

lemma fold_is2Step_other:
  assumes "fold (is2Step tol) rest (bs, q, nr) = (bs', q', nr')" and "h \<notin> set rest"
  shows "bs' ! h = bs ! h"
  using assms
proof (induction rest arbitrary: bs q nr)
  case Nil
  then show ?case by simp
next
  case (Cons b rest)
  obtain bs1 q1 nr1 where st: "is2Step tol b (bs, q, nr) = (bs1, q1, nr1)" by (metis prod_cases3)
  have "bs1 ! h = bs ! h" by (rule is2Step_other[OF st]) (use Cons.prems(2) in auto)
  moreover have "bs' ! h = bs1 ! h"
    by (rule Cons.IH[of bs1 q1 nr1]) (use Cons.prems st in auto)
  ultimately show ?case by simp
qed

lemma stageS1_first:
  assumes ne: "arr \<noteq> []" and res: "stageS1 opts (setupBlocks arr) = (st, tot)"
  shows "blocksReordered st \<noteq> [] \<and> depth (blocks st ! hd (blocksReordered st)) = 0"
proof -
  define st0 where "st0 = setupBlocks arr"
  define st1 where "st1 = sortByStartTime st0"
  define bs0 where "bs0 = blocks st0"
  define ord where "ord = blocksReordered st1"
  have ne0: "bs0 \<noteq> []" using ne unfolding bs0_def st0_def by (simp add: setupBlocks_def)
  have ne1: "blocks st0 \<noteq> []" using ne0 by (simp add: bs0_def)
  have ok: "orderOK bs0 ord" unfolding bs0_def ord_def st1_def st0_def by (rule sortByStartTime_order)
  have d0: "\<forall>i<length bs0. depth (bs0 ! i) = 0" unfolding bs0_def st0_def by (rule depth_setupBlocks)
  have b1: "blocks st1 = bs0" unfolding st1_def bs0_def by simp
  from orderOK_split[OF ok ne0] obtain h t where ht: "ord = h # t" and h: "h < length bs0"
    and dist: "distinct ([h] @ t)" by blast
  have hn: "h \<notin> set t" using dist by simp
  have dh: "depth (bs0 ! h) = 0" using d0 h by simp
  show ?thesis
  proof (cases "ISMethod opts = 1")
    case True
    obtain bs buf nr where f: "fold (isStep (isTolerance opts)) (tl ord) (blocks st1, [hd ord], 0) = (bs, buf, nr)"
      by (metis prod_cases3)
    have "intervalScheduling opts st0 = (st1\<lparr>blocks := bs\<rparr>, nr + 1)"
      unfolding st1_def by (rule intervalScheduling_unfold[OF ne1]) (use f in \<open>simp add: ord_def st1_def\<close>)
    with res True have st: "st = st1\<lparr>blocks := bs\<rparr>" by (simp add: stageS1_def st0_def)
    have "bs ! h = bs0 ! h" by (rule fold_isStep_other[OF f[unfolded ht b1, simplified] hn])
    then show ?thesis using st dh ht by (simp add: ord_def)
  next
    case False
    obtain bs q nr where f: "fold (is2Step (isTolerance opts)) (tl ord) (blocks st1, [hd ord], 0) = (bs, q, nr)"
      by (metis prod_cases3)
    have "intervalScheduling2 opts st0 = (st1\<lparr>blocks := bs\<rparr>, nr + 1)"
      unfolding st1_def by (rule intervalScheduling2_unfold[OF ne1]) (use f in \<open>simp add: ord_def st1_def\<close>)
    with res False have st: "st = st1\<lparr>blocks := bs\<rparr>" by (simp add: stageS1_def st0_def)
    have "bs ! h = bs0 ! h" by (rule fold_is2Step_other[OF f[unfolded ht b1, simplified] hn])
    then show ?thesis using st dh ht by (simp add: ord_def)
  qed
qed

lemma stageS1_depth_range:
  assumes "arr \<noteq> []" and "stageS1 opts (setupBlocks arr) = (st, tot)"
  shows "(\<forall>b\<in>set (blocks st). 0 \<le> depth b \<and> depth b \<le> tot - 1) \<and>
         (\<exists>b\<in>set (blocks st). depth b = 0)"
proof -
  define bs0 where "bs0 = blocks (setupBlocks arr)"
  from stageS1_post[OF assms] obtain R where
    inv: "s1Inv (s1Tau opts) bs0 (blocksReordered st) (blocks st) R (tot - 1)"
    and ok: "orderOK bs0 (blocksReordered st)"
    unfolding bs0_def by blast
  have len: "length (blocks st) = length bs0" by (rule s1Inv_length[OF inv])
  from inv have ri: "roomsInv (s1Tau opts) (\<lambda>i. startMin (bs0 ! i)) (\<lambda>i. endMin (bs0 ! i))
      (blocksReordered st) (\<lambda>i. depth (blocks st ! i)) R (tot - 1)"
    by (simp add: s1Inv_def)
  have 1: "\<forall>b\<in>set (blocks st). 0 \<le> depth b \<and> depth b \<le> tot - 1"
  proof
    fix b assume "b \<in> set (blocks st)"
    then obtain i where i: "i < length (blocks st)" "b = blocks st ! i" by (auto simp: in_set_conv_nth)
    then have "i \<in> set (blocksReordered st)" using orderOK_mem[OF ok] len by simp
    from roomsInv_range[OF ri this] i show "0 \<le> depth b \<and> depth b \<le> tot - 1" by simp
  qed
  from ri have img: "(\<lambda>i. depth (blocks st ! i)) ` R = {0..tot - 1}" and nr: "0 \<le> tot - 1"
    and R: "R \<subseteq> set (blocksReordered st)"
    by (auto simp: roomsInv_def)
  have "0 \<in> (\<lambda>i. depth (blocks st ! i)) ` R" unfolding img using nr by simp
  then obtain r where r: "r \<in> R" "depth (blocks st ! r) = 0" by auto
  then have "r < length (blocks st)" using R orderOK_mem[OF ok] len by auto
  then have "blocks st ! r \<in> set (blocks st)" by simp
  with r have 2: "\<exists>b\<in>set (blocks st). depth b = 0" by blast
  show ?thesis using 1 2 by blast
qed

subsection \<open>C4: the range of \<open>depth\<close> after S1\<close>

text \<open>
  Claim C4 says that after S1 every depth lies in \<open>[1, total]\<close> and that no block has
  depth 0. The code numbers the rooms from 0: the first block of the start order keeps the
  depth 0 of the set-up, and a new room gets \<open>numRooms + 1\<close> before the function returns
  \<open>numRooms + 1\<close>. A single block is the smallest input that shows it: S1 returns 1 and
  the block has depth 0.
\<close>

theorem s1_depth_one_based_counterexample:
  "snd (stageS1 defaultOptions (setupBlocks [(0, 60)])) = 1 \<and>
   depth (blocks (fst (stageS1 defaultOptions (setupBlocks [(0, 60)]))) ! 0) = 0"
  by code_simp

text \<open>
  C4, amended: after stage S1 (either method, any tolerance) returns \<open>tot\<close> on a non-empty
  input, every block's depth lies in \<open>[0, tot - 1]\<close>, and the first block of the start order
  (\<open>blocksReordered\<close>) has depth 0.
\<close>

theorem s1_depth_range:
  assumes "arr \<noteq> []" and "stageS1 opts (setupBlocks arr) = (st, tot)"
  shows "(\<forall>b\<in>set (blocks st). 0 \<le> depth b \<and> depth b \<le> tot - 1) \<and>
         blocksReordered st \<noteq> [] \<and> hd (blocksReordered st) < length (blocks st) \<and>
         depth (blocks st ! hd (blocksReordered st)) = 0"
proof -
  from stageS1_post[OF assms] have ok: "orderOK (blocks (setupBlocks arr)) (blocksReordered st)"
    and len: "length (blocks st) = length (blocks (setupBlocks arr))"
    using s1Inv_length by blast+
  from stageS1_first[OF assms] have f: "blocksReordered st \<noteq> []"
    "depth (blocks st ! hd (blocksReordered st)) = 0" by blast+
  have "hd (blocksReordered st) \<in> set (blocksReordered st)" using f(1) by simp
  then have "hd (blocksReordered st) < length (blocks st)" using orderOK_mem[OF ok] len by simp
  with stageS1_depth_range[OF assms] f show ?thesis by blast
qed

text \<open>The amended C4 on two overlapping blocks: depths 0 and 1, \<open>tot = 2\<close>, the first block at depth 0.\<close>

theorem s1_depth_range_witness:
  "[(0, 60), (30, 90)] \<noteq> ([] :: Input list) \<and>
   list_all (\<lambda>b. 0 \<le> depth b \<and> depth b \<le> snd (stageS1 defaultOptions (setupBlocks [(0, 60), (30, 90)])) - 1)
     (blocks (fst (stageS1 defaultOptions (setupBlocks [(0, 60), (30, 90)])))) \<and>
   depth (blocks (fst (stageS1 defaultOptions (setupBlocks [(0, 60), (30, 90)]))) !
            hd (blocksReordered (fst (stageS1 defaultOptions (setupBlocks [(0, 60), (30, 90)]))))) = 0 \<and>
   snd (stageS1 defaultOptions (setupBlocks [(0, 60), (30, 90)])) = 2"
proof -
  have ne: "[(0, 60), (30, 90)] \<noteq> ([] :: Input list)" by simp
  have n: "snd (stageS1 defaultOptions (setupBlocks [(0, 60), (30, 90)])) = 2" by code_simp
  note t = s1_depth_range[OF ne prod.collapse[symmetric], of defaultOptions]
  have "list_all (\<lambda>b. 0 \<le> depth b \<and> depth b \<le> snd (stageS1 defaultOptions (setupBlocks [(0, 60), (30, 90)])) - 1)
     (blocks (fst (stageS1 defaultOptions (setupBlocks [(0, 60), (30, 90)]))))"
    using t unfolding list_all_iff by blast
  with t ne n show ?thesis by blast
qed

subsection \<open>The clique that S1 finds, and the separation of the rooms\<close>

lemma s1_loop1_clique:
  assumes ok: "orderOK bs0 ord" and ne: "bs0 \<noteq> []" and d0: "\<forall>i<length bs0. depth (bs0 ! i) = 0"
    and f: "fold (isStep tau) (tl ord) (bs0, [hd ord], 0) = (bs, buf, nr)"
    and tau: "tau \<le> 0" and valid: "\<forall>i<length bs0. startMin (bs0 ! i) < endMin (bs0 ! i)"
    and N: "int (length bs0) \<le> INT_MAX"
  shows "cliqueInv tau (\<lambda>i. startMin (bs0 ! i)) (\<lambda>i. endMin (bs0 ! i)) ord nr"
proof -
  from orderOK_split[OF ok ne] obtain h t where ht: "ord = h # t" and h: "h < length bs0"
    and p3: "distinct ([h] @ t)" and p4: "set t \<subseteq> {..<length bs0}"
    and p5: "sorted_wrt (\<lambda>p q. startMin (bs0 ! p) \<le> startMin (bs0 ! q)) ([h] @ t)"
    by blast
  have dh: "depth (bs0 ! h) = 0" using d0 h by simp
  have init: "s1Inv tau bs0 [h] bs0 (set [h]) 0" using s1Inv_init[OF h dh] by simp
  have bi: "bufInv bs0 [h] 0" using dh by (simp add: bufInv_def)
  have f': "fold (isStep tau) t (bs0, [h], 0) = (bs, buf, nr)" using f unfolding ht by simp
  have v: "\<forall>b\<in>set t. startMin (bs0 ! b) < endMin (bs0 ! b)" using valid p4 by auto
  from fold_isStep_clique[OF init bi p3 p4 p5 f' cliqueInv_init tau v N]
  show ?thesis unfolding ht by simp
qed

lemma s1_loop2_clique:
  assumes ok: "orderOK bs0 ord" and ne: "bs0 \<noteq> []" and d0: "\<forall>i<length bs0. depth (bs0 ! i) = 0"
    and f: "fold (is2Step t0) (tl ord) (bs0, [hd ord], 0) = (bs, q, nr)"
    and tau: "- t0 \<le> 0" and valid: "\<forall>i<length bs0. startMin (bs0 ! i) < endMin (bs0 ! i)"
  shows "cliqueInv (- t0) (\<lambda>i. startMin (bs0 ! i)) (\<lambda>i. endMin (bs0 ! i)) ord nr"
proof -
  from orderOK_split[OF ok ne] obtain h t where ht: "ord = h # t" and h: "h < length bs0"
    and p3: "distinct ([h] @ t)" and p4: "set t \<subseteq> {..<length bs0}"
    and p5: "sorted_wrt (\<lambda>p q. startMin (bs0 ! p) \<le> startMin (bs0 ! q)) ([h] @ t)"
    by blast
  have dh: "depth (bs0 ! h) = 0" using d0 h by simp
  have init: "s1Inv (- t0) bs0 [h] bs0 (set [h]) 0" using s1Inv_init[OF h dh] by simp
  have dq: "distinct [h]" by simp
  have f': "fold (is2Step t0) t (bs0, [h], 0) = (bs, q, nr)" using f unfolding ht by simp
  have v: "\<forall>b\<in>set t. startMin (bs0 ! b) < endMin (bs0 ! b)" using valid p4 by auto
  from fold_is2Step_clique[OF init dq p3 p4 p5 f' cliqueInv_init tau v]
  show ?thesis unfolding ht by simp
qed

lemma validInput_blocks:
  assumes "validInput arr" and "i < length arr"
  shows "startMin (blocks (setupBlocks arr) ! i) < endMin (blocks (setupBlocks arr) ! i)"
proof -
  have "arr ! i \<in> set arr" using assms(2) by simp
  then have "fst (arr ! i) < snd (arr ! i)" using assms(1) by (auto simp: validInput_def list_all_iff)
  then show ?thesis using assms(2) by (simp add: nth_setupBlocks initBlock_def)
qed

lemma stageS1_clique:
  assumes ne: "arr \<noteq> []" and res: "stageS1 opts (setupBlocks arr) = (st, tot)"
    and valid: "validInput arr" and tau: "s1Tau opts \<le> 0"
  shows "cliqueInv (s1Tau opts) (\<lambda>i. startMin (blocks (setupBlocks arr) ! i))
           (\<lambda>i. endMin (blocks (setupBlocks arr) ! i)) (blocksReordered st) (tot - 1)"
proof -
  define st0 where "st0 = setupBlocks arr"
  define st1 where "st1 = sortByStartTime st0"
  define bs0 where "bs0 = blocks st0"
  define ord where "ord = blocksReordered st1"
  have ne0: "bs0 \<noteq> []" using ne unfolding bs0_def st0_def by (simp add: setupBlocks_def)
  have ne1: "blocks st0 \<noteq> []" using ne0 by (simp add: bs0_def)
  have ok: "orderOK bs0 ord" unfolding bs0_def ord_def st1_def st0_def by (rule sortByStartTime_order)
  have d0: "\<forall>i<length bs0. depth (bs0 ! i) = 0" unfolding bs0_def st0_def by (rule depth_setupBlocks)
  have v: "\<forall>i<length bs0. startMin (bs0 ! i) < endMin (bs0 ! i)"
    unfolding bs0_def st0_def using validInput_blocks[OF valid] by simp
  have N: "int (length bs0) \<le> INT_MAX" unfolding bs0_def st0_def using valid by (simp add: validInput_def)
  show ?thesis
  proof (cases "ISMethod opts = 1")
    case True
    obtain bs buf nr where f: "fold (isStep (isTolerance opts)) (tl ord) (bs0, [hd ord], 0) = (bs, buf, nr)"
      by (rule prod_cases3)
    have "intervalScheduling opts st0 = (st1\<lparr>blocks := bs\<rparr>, nr + 1)"
      unfolding st1_def by (rule intervalScheduling_unfold[OF ne1]) (use f in \<open>simp add: ord_def st1_def bs0_def\<close>)
    with res True have e: "st = st1\<lparr>blocks := bs\<rparr>" "tot = nr + 1"
      by (simp_all add: stageS1_def st0_def)
    have t: "isTolerance opts \<le> 0" using tau True by (simp add: s1Tau_def)
    have "cliqueInv (isTolerance opts) (\<lambda>i. startMin (bs0 ! i)) (\<lambda>i. endMin (bs0 ! i)) ord nr"
      by (rule s1_loop1_clique[OF ok ne0 d0 f t v N])
    then show ?thesis using True e unfolding bs0_def st0_def by (simp add: s1Tau_def ord_def)
  next
    case False
    obtain bs q nr where f: "fold (is2Step (isTolerance opts)) (tl ord) (bs0, [hd ord], 0) = (bs, q, nr)"
      by (rule prod_cases3)
    have "intervalScheduling2 opts st0 = (st1\<lparr>blocks := bs\<rparr>, nr + 1)"
      unfolding st1_def by (rule intervalScheduling2_unfold[OF ne1]) (use f in \<open>simp add: ord_def st1_def bs0_def\<close>)
    with res False have e: "st = st1\<lparr>blocks := bs\<rparr>" "tot = nr + 1"
      by (simp_all add: stageS1_def st0_def)
    have t: "- isTolerance opts \<le> 0" using tau False by (simp add: s1Tau_def)
    have "cliqueInv (- isTolerance opts) (\<lambda>i. startMin (bs0 ! i)) (\<lambda>i. endMin (bs0 ! i)) ord nr"
      by (rule s1_loop2_clique[OF ok ne0 d0 f t v])
    then show ?thesis using False e unfolding bs0_def st0_def by (simp add: s1Tau_def ord_def)
  qed
qed

lemma s1_distinct_depth:
  assumes inv: "s1Inv tau bs0 ord bs R nr" and ok: "orderOK bs0 ord"
    and a: "a < length bs0" and b: "b < length bs0" and ab: "a \<noteq> b"
    and cf: "conflict d (bs0 ! a) (bs0 ! b)" and td: "tau \<le> d"
  shows "depth (bs ! a) \<noteq> depth (bs ! b)"
proof
  assume eq: "depth (bs ! a) = depth (bs ! b)"
  from inv have pw: "\<And>i j. i < j \<Longrightarrow> j < length ord \<Longrightarrow> depth (bs ! (ord ! i)) = depth (bs ! (ord ! j))
         \<Longrightarrow> endMin (bs0 ! (ord ! i)) \<le> startMin (bs0 ! (ord ! j)) + tau"
    by (simp add: s1Inv_def roomsInv_def)
  from a b orderOK_mem[OF ok] obtain i j where i: "i < length ord" "ord ! i = a"
    and j: "j < length ord" "ord ! j = b" by (metis in_set_conv_nth)
  have ij: "i \<noteq> j" using i j ab by auto
  show False
  proof (cases "i < j")
    case True
    from pw[OF True j(1)] eq i j have "endMin (bs0 ! a) \<le> startMin (bs0 ! b) + tau" by simp
    with cf td show False by (auto simp: conflict_def max_def min_def split: if_splits)
  next
    case False
    with ij have ji: "j < i" by simp
    from pw[OF ji i(1)] eq i j have "endMin (bs0 ! b) \<le> startMin (bs0 ! a) + tau" by simp
    with cf td show False by (auto simp: conflict_def max_def min_def split: if_splits)
  qed
qed

subsection \<open>C3: the room count of S1\<close>

lemma stageS1_empty: "stageS1 opts (setupBlocks []) = (setupBlocks [], 0)"
  by (simp add: stageS1_def intervalScheduling_def intervalScheduling2_def setupBlocks_def)

lemma isClique_empty: "isClique d bs {}"
  by (simp add: isClique_def)

lemma s1_clique_number:
  assumes valid: "validInput arr" and tau: "s1Tau opts \<le> 0"
    and res: "stageS1 opts (setupBlocks arr) = (st, tot)"
  shows "(\<exists>S. isClique (s1Tau opts) (blocks (setupBlocks arr)) S \<and> int (card S) = tot) \<and>
    (\<forall>S. isClique (s1Tau opts) (blocks (setupBlocks arr)) S \<longrightarrow> int (card S) \<le> tot) \<and>
    properRooms (s1Tau opts) (blocks (setupBlocks arr)) (\<lambda>i. depth (blocks st ! i))"
proof (cases "arr = []")
  case True
  with res have "tot = 0" by (simp add: stageS1_empty)
  then show ?thesis using True by (auto simp: isClique_def properRooms_def setupBlocks_def)
next
  case False
  define bs0 where "bs0 = blocks (setupBlocks arr)"
  define tau where "tau = s1Tau opts"
  from stageS1_post[OF False res] obtain R where
    inv: "s1Inv tau bs0 (blocksReordered st) (blocks st) R (tot - 1)"
    and ok: "orderOK bs0 (blocksReordered st)"
    unfolding bs0_def tau_def by blast
  from stageS1_clique[OF False res valid tau]
  obtain S where S: "S \<subseteq> set (blocksReordered st)" "int (card S) = tot - 1 + 1"
    and cl: "\<forall>a\<in>S. \<forall>b\<in>S. a \<noteq> b \<longrightarrow>
       max (startMin (bs0 ! a)) (startMin (bs0 ! b)) + tau < min (endMin (bs0 ! a)) (endMin (bs0 ! b))"
    unfolding cliqueInv_def bs0_def tau_def by blast
  have "S \<subseteq> {..<length bs0}" using S(1) orderOK_mem[OF ok] by auto
  then have "isClique tau bs0 S" using cl by (simp add: isClique_def conflict_def)
  then have 1: "\<exists>S. isClique tau bs0 S \<and> int (card S) = tot" using S(2) by auto
  have dd: "\<And>a b. a < length bs0 \<Longrightarrow> b < length bs0 \<Longrightarrow> a \<noteq> b \<Longrightarrow> conflict tau (bs0 ! a) (bs0 ! b)
      \<Longrightarrow> depth (blocks st ! a) \<noteq> depth (blocks st ! b)"
    by (rule s1_distinct_depth[OF inv ok]) auto
  from inv have ri: "roomsInv tau (\<lambda>i. startMin (bs0 ! i)) (\<lambda>i. endMin (bs0 ! i))
      (blocksReordered st) (\<lambda>i. depth (blocks st ! i)) R (tot - 1)"
    by (simp add: s1Inv_def)
  have 2: "\<forall>S. isClique tau bs0 S \<longrightarrow> int (card S) \<le> tot"
  proof (intro allI impI)
    fix T assume T: "isClique tau bs0 T"
    then have sub: "T \<subseteq> {..<length bs0}" by (simp add: isClique_def)
    have inj: "inj_on (\<lambda>i. depth (blocks st ! i)) T"
    proof (rule inj_onI)
      fix x y assume xy: "x \<in> T" "y \<in> T" "depth (blocks st ! x) = depth (blocks st ! y)"
      show "x = y"
      proof (rule ccontr)
        assume n: "x \<noteq> y"
        then have "conflict tau (bs0 ! x) (bs0 ! y)" using T xy by (simp add: isClique_def)
        from dd[OF _ _ n this] xy sub show False by auto
      qed
    qed
    have "(\<lambda>i. depth (blocks st ! i)) ` T \<subseteq> {0..tot - 1}"
    proof
      fix d assume "d \<in> (\<lambda>i. depth (blocks st ! i)) ` T"
      then obtain i where i: "i \<in> T" "d = depth (blocks st ! i)" by auto
      then have "i \<in> set (blocksReordered st)" using sub orderOK_mem[OF ok] by auto
      from roomsInv_range[OF ri this] i show "d \<in> {0..tot - 1}" by simp
    qed
    then have "card ((\<lambda>i. depth (blocks st ! i)) ` T) \<le> card {0..tot - 1}"
      by (intro card_mono) auto
    then have "card T \<le> card {0..tot - 1}" using inj by (simp add: card_image)
    moreover have "0 \<le> tot - 1" using ri by (simp add: roomsInv_def)
    ultimately show "int (card T) \<le> tot" by simp
  qed
  have 3: "properRooms tau bs0 (\<lambda>i. depth (blocks st ! i))"
    unfolding properRooms_def using dd by blast
  show ?thesis using 1 2 3 unfolding bs0_def tau_def by blast
qed

lemma properRooms_card:
  assumes "properRooms d bs c" and "isClique d bs S"
  shows "card S \<le> card (c ` {..<length bs})"
proof -
  from assms(2) have sub: "S \<subseteq> {..<length bs}" by (simp add: isClique_def)
  have "inj_on c S"
  proof (rule inj_onI)
    fix x y assume xy: "x \<in> S" "y \<in> S" "c x = c y"
    show "x = y"
    proof (rule ccontr)
      assume n: "x \<noteq> y"
      then have "conflict d (bs ! x) (bs ! y)" using assms(2) xy by (simp add: isClique_def)
      moreover have "x < length bs" "y < length bs" using xy sub by auto
      ultimately show False using assms(1) n xy(3) unfolding properRooms_def by blast
    qed
  qed
  then have "card S = card (c ` S)" by (simp add: card_image)
  also have "\<dots> \<le> card (c ` {..<length bs})" using sub by (intro card_mono) auto
  finally show ?thesis .
qed

lemma intervalScheduling_method: "intervalScheduling (opts\<lparr>ISMethod := m\<rparr>) st = intervalScheduling opts st"
  by (simp add: intervalScheduling_def)

lemma intervalScheduling2_method: "intervalScheduling2 (opts\<lparr>ISMethod := m\<rparr>) st = intervalScheduling2 opts st"
  by (simp add: intervalScheduling2_def)


text \<open>
  C3, amended. For every valid input: when \<open>isTolerance\<close> is in the range in which the sums of
  S1 do not overflow (\<open>tolInRange\<close>), \<open>dfsTolerance \<le> 0\<close> and the slack of S1 equals it
  (\<open>isTolerance = dfsTolerance\<close> for method 1, \<open>- isTolerance = dfsTolerance\<close> for method 2; the
  defaults are \<open>0\<close> and \<open>0\<close>), the count \<open>tot\<close> that S1 returns is the size of a clique of the
  conflict graph and no clique is larger, the depths are a proper room assignment and every
  proper room assignment uses at least \<open>tot\<close> rooms; and with \<open>isTolerance = 0\<close>, whatever
  \<open>dfsTolerance\<close> is, the two methods return the same count.
\<close>

theorem s1_room_count_clique_number:
  assumes "validInput arr" and "stageS1 opts (setupBlocks arr) = (st, tot)"
  shows "(tolInRange (isTolerance opts) \<and> dfsTolerance opts \<le> 0 \<and> s1Tau opts = dfsTolerance opts \<longrightarrow>
      (\<exists>S. isClique (dfsTolerance opts) (blocks (setupBlocks arr)) S \<and> int (card S) = tot) \<and>
      (\<forall>S. isClique (dfsTolerance opts) (blocks (setupBlocks arr)) S \<longrightarrow> int (card S) \<le> tot) \<and>
      properRooms (dfsTolerance opts) (blocks (setupBlocks arr)) (\<lambda>i. depth (blocks st ! i)) \<and>
      (\<forall>c. properRooms (dfsTolerance opts) (blocks (setupBlocks arr)) c
          \<longrightarrow> tot \<le> int (card (c ` {..<length arr})))) \<and>
    (isTolerance opts = 0 \<longrightarrow>
       snd (intervalScheduling opts (setupBlocks arr)) = snd (intervalScheduling2 opts (setupBlocks arr)))"
proof (intro conjI impI)
  assume h: "tolInRange (isTolerance opts) \<and> dfsTolerance opts \<le> 0 \<and> s1Tau opts = dfsTolerance opts"
  then have tau: "s1Tau opts \<le> 0" and eq: "s1Tau opts = dfsTolerance opts" by simp_all
  from s1_clique_number[OF assms(1) tau assms(2)] eq
  have 1: "\<exists>S. isClique (dfsTolerance opts) (blocks (setupBlocks arr)) S \<and> int (card S) = tot"
    and 2: "\<forall>S. isClique (dfsTolerance opts) (blocks (setupBlocks arr)) S \<longrightarrow> int (card S) \<le> tot"
    and 3: "properRooms (dfsTolerance opts) (blocks (setupBlocks arr)) (\<lambda>i. depth (blocks st ! i))"
    by simp_all
  show "\<exists>S. isClique (dfsTolerance opts) (blocks (setupBlocks arr)) S \<and> int (card S) = tot" by (rule 1)
  show "\<forall>S. isClique (dfsTolerance opts) (blocks (setupBlocks arr)) S \<longrightarrow> int (card S) \<le> tot" by (rule 2)
  show "properRooms (dfsTolerance opts) (blocks (setupBlocks arr)) (\<lambda>i. depth (blocks st ! i))" by (rule 3)
  show "\<forall>c. properRooms (dfsTolerance opts) (blocks (setupBlocks arr)) c
        \<longrightarrow> tot \<le> int (card (c ` {..<length arr}))"
  proof (intro allI impI)
    fix c assume c: "properRooms (dfsTolerance opts) (blocks (setupBlocks arr)) c"
    from 1 obtain S where S: "isClique (dfsTolerance opts) (blocks (setupBlocks arr)) S" "int (card S) = tot"
      by blast
    from properRooms_card[OF c S(1)] S(2) show "tot \<le> int (card (c ` {..<length arr}))" by simp
  qed
next
  assume z: "isTolerance opts = 0"
  let ?o1 = "opts\<lparr>ISMethod := 1\<rparr>" and ?o2 = "opts\<lparr>ISMethod := 2\<rparr>"
  let ?r1 = "intervalScheduling opts (setupBlocks arr)" and ?r2 = "intervalScheduling2 opts (setupBlocks arr)"
  have t1: "s1Tau ?o1 = 0" and t2: "s1Tau ?o2 = 0" using z by (simp_all add: s1Tau_def)
  have r1: "stageS1 ?o1 (setupBlocks arr) = (fst ?r1, snd ?r1)"
    by (simp add: stageS1_def intervalScheduling_method)
  have r2: "stageS1 ?o2 (setupBlocks arr) = (fst ?r2, snd ?r2)"
    by (simp add: stageS1_def intervalScheduling2_method)
  from s1_clique_number[OF assms(1) _ r1] t1
  have a1: "\<exists>S. isClique 0 (blocks (setupBlocks arr)) S \<and> int (card S) = snd ?r1"
    and b1: "\<forall>S. isClique 0 (blocks (setupBlocks arr)) S \<longrightarrow> int (card S) \<le> snd ?r1"
    by simp_all
  from s1_clique_number[OF assms(1) _ r2] t2
  have a2: "\<exists>S. isClique 0 (blocks (setupBlocks arr)) S \<and> int (card S) = snd ?r2"
    and b2: "\<forall>S. isClique 0 (blocks (setupBlocks arr)) S \<longrightarrow> int (card S) \<le> snd ?r2"
    by simp_all
  from a1 b2 have "snd ?r1 \<le> snd ?r2" by auto
  moreover from a2 b1 have "snd ?r2 \<le> snd ?r1" by auto
  ultimately show "snd ?r1 = snd ?r2" by simp
qed

text \<open>
  Claim C3 (the count of S1 is the clique number of the conflict graph, for both methods)
  fails as stated, for every setting of the options: the conflict graph is the graph for
  \<open>dfsTolerance\<close>, S1 decides with \<open>isTolerance\<close>, and the two methods apply \<open>isTolerance\<close> with
  opposite signs. With \<open>isTolerance = 10\<close> and \<open>dfsTolerance = 0\<close> the blocks \<open>[0, 60)\<close> and
  \<open>[55, 100)\<close> conflict, method 1 returns one room and method 2 returns two.
\<close>

theorem s1_room_count_counterexample:
  "snd (stageS1 (defaultOptions\<lparr>isTolerance := 10\<rparr>) (setupBlocks [(0, 60), (55, 100)])) = 1 \<and>
   conflict (dfsTolerance (defaultOptions\<lparr>isTolerance := 10\<rparr>))
     (blocks (setupBlocks [(0, 60), (55, 100)]) ! 0) (blocks (setupBlocks [(0, 60), (55, 100)]) ! 1) \<and>
   snd (stageS1 (defaultOptions\<lparr>isTolerance := 10, ISMethod := 2\<rparr>) (setupBlocks [(0, 60), (55, 100)])) = 2"
  by code_simp

text \<open>The amended C3 on the staircase of three blocks, at the default options: two rooms.\<close>

theorem s1_room_count_clique_number_witness:
  "validInput [(0, 60), (30, 90), (60, 120)] \<and> tolInRange (isTolerance defaultOptions) \<and>
   dfsTolerance defaultOptions \<le> 0 \<and> s1Tau defaultOptions = dfsTolerance defaultOptions \<and>
   isTolerance defaultOptions = 0 \<and>
   (\<exists>S. isClique (dfsTolerance defaultOptions) (blocks (setupBlocks [(0, 60), (30, 90), (60, 120)])) S \<and>
      int (card S) = snd (stageS1 defaultOptions (setupBlocks [(0, 60), (30, 90), (60, 120)]))) \<and>
   snd (stageS1 defaultOptions (setupBlocks [(0, 60), (30, 90), (60, 120)])) = 2 \<and>
   snd (intervalScheduling defaultOptions (setupBlocks [(0, 60), (30, 90), (60, 120)])) =
     snd (intervalScheduling2 defaultOptions (setupBlocks [(0, 60), (30, 90), (60, 120)]))"
proof -
  have v: "validInput [(0, 60), (30, 90), (60, 120)]" by (simp add: validInput_def INT_MAX_def)
  have r: "tolInRange (isTolerance defaultOptions)" by (simp add: tolInRange_def defaultOptions_def)
  have d: "dfsTolerance defaultOptions \<le> 0" by (simp add: defaultOptions_def)
  have t: "s1Tau defaultOptions = dfsTolerance defaultOptions" by (simp add: s1Tau_def defaultOptions_def)
  have z: "isTolerance defaultOptions = 0" by (simp add: defaultOptions_def)
  have n: "snd (stageS1 defaultOptions (setupBlocks [(0, 60), (30, 90), (60, 120)])) = 2" by code_simp
  show ?thesis
    using s1_room_count_clique_number[OF v prod.collapse[symmetric], of defaultOptions] v r d t z n by blast
qed

subsection \<open>S2 records the pairs of \<open>leftRel\<close>\<close>

lemma adjFrame_refl: "adjFrame bs bs"
  by (simp add: adjFrame_def)

lemma adjFrame_trans: "adjFrame bs0 bs1 \<Longrightarrow> adjFrame bs1 bs2 \<Longrightarrow> adjFrame bs0 bs2"
  by (simp add: adjFrame_def)

lemma adjFrame_fields:
  assumes "adjFrame bs0 bs" and "i < length bs0"
  shows "depth (bs ! i) = depth (bs0 ! i)" and "startMin (bs ! i) = startMin (bs0 ! i)"
    and "endMin (bs ! i) = endMin (bs0 ! i)" and "idx (bs ! i) = idx (bs0 ! i)"
    and "cleftN (bs ! i) = cleftN (bs0 ! i)" and "crightN (bs ! i) = crightN (bs0 ! i)"
    and "visited (bs ! i) = visited (bs0 ! i)"
  using assms by (simp_all add: adjFrame_def)

lemma addEdge_blocks:
  assumes "bi < length (blocks st)" and "bj < length (blocks st)" and "bi \<noteq> bj"
  shows "blocks (addEdge bi bj st) =
    (if depth (blocks st ! bi) < depth (blocks st ! bj)
     then (blocks st)[bj := (blocks st ! bj)\<lparr>leftN := leftN (blocks st ! bj) @ [bi]\<rparr>,
                      bi := (blocks st ! bi)\<lparr>rightN := rightN (blocks st ! bi) @ [bj]\<rparr>]
     else (blocks st)[bj := (blocks st ! bj)\<lparr>rightN := rightN (blocks st ! bj) @ [bi]\<rparr>,
                      bi := (blocks st ! bi)\<lparr>leftN := leftN (blocks st ! bi) @ [bj]\<rparr>])"
  using assms by (simp add: addEdge_def Let_def)

lemma addEdge_matrix:
  "matrix (addEdge bi bj st) =
    (if depth (blocks st ! bi) < depth (blocks st ! bj)
     then (matrix st)[idx (blocks st ! bj) * length (blocks st) + idx (blocks st ! bi) := True]
     else (matrix st)[idx (blocks st ! bi) * length (blocks st) + idx (blocks st ! bj) := True])"
  by (simp add: addEdge_def Let_def)

lemma addEdge_reordered [simp]: "blocksReordered (addEdge bi bj st) = blocksReordered st"
  by (simp add: addEdge_def Let_def)

lemma addEdge_length [simp]: "length (blocks (addEdge bi bj st)) = length (blocks st)"
  by (simp add: addEdge_def Let_def)

lemma addEdge_frame:
  assumes "bi < length (blocks st)" and "bj < length (blocks st)" and "bi \<noteq> bj"
  shows "adjFrame (blocks st) (blocks (addEdge bi bj st))"
  unfolding adjFrame_def addEdge_blocks[OF assms]
  using assms by (simp add: nth_list_update)

lemma cell_inj:
  fixes a j a0 j0 n :: nat
  assumes "j < n" and "j0 < n"
  shows "a * n + j = a0 * n + j0 \<longleftrightarrow> a = a0 \<and> j = j0"
proof
  assume e: "a * n + j = a0 * n + j0"
  have "(a * n + j) div n = a" "(a0 * n + j0) div n = a0" using assms by simp_all
  with e have "a = a0" by simp
  with e show "a = a0 \<and> j = j0" by simp
qed simp

lemma cell_bound:
  fixes a j n :: nat
  assumes "a < n" and "j < n"
  shows "a * n + j < n * n"
proof -
  have "a * n + j < a * n + n" using assms by simp
  also have "\<dots> = (a + 1) * n" by simp
  also have "\<dots> \<le> n * n" using assms(1) by (intro mult_le_mono1) simp
  finally show ?thesis .
qed

lemma adjInv_add:
  assumes inv: "adjInv st L"
    and a0: "a0 < length (blocks st)" and j0: "j0 < length (blocks st)" and ne: "a0 \<noteq> j0"
    and bs: "blocks st' = (blocks st)[a0 := (blocks st ! a0)\<lparr>leftN := leftN (blocks st ! a0) @ [j0]\<rparr>,
                j0 := (blocks st ! j0)\<lparr>rightN := rightN (blocks st ! j0) @ [a0]\<rparr>]"
    and m: "matrix st' = (matrix st)[idx (blocks st ! a0) * length (blocks st) + idx (blocks st ! j0) := True]"
  shows "adjInv st' (insert (a0, j0) L)"
proof -
  let ?n = "length (blocks st)"
  from inv have lm: "length (matrix st) = ?n * ?n"
    and ix: "\<And>i. i < ?n \<Longrightarrow> idx (blocks st ! i) = i"
    and sub: "L \<subseteq> {..<?n} \<times> {..<?n}"
    and ln: "\<And>a. a < ?n \<Longrightarrow> set (leftN (blocks st ! a)) = {j. (a, j) \<in> L}"
    and rn: "\<And>j. j < ?n \<Longrightarrow> set (rightN (blocks st ! j)) = {a. (a, j) \<in> L}"
    and mx: "\<And>a j. a < ?n \<Longrightarrow> j < ?n \<Longrightarrow> matrix st ! (a * ?n + j) \<longleftrightarrow> (a, j) \<in> L"
    unfolding adjInv_def by (auto simp: )
  have len: "length (blocks st') = ?n" unfolding bs by simp
  have nth: "\<And>i. i < ?n \<Longrightarrow> blocks st' ! i =
      (if i = j0 then (blocks st ! j0)\<lparr>rightN := rightN (blocks st ! j0) @ [a0]\<rparr>
       else if i = a0 then (blocks st ! a0)\<lparr>leftN := leftN (blocks st ! a0) @ [j0]\<rparr>
       else blocks st ! i)"
    unfolding bs using a0 j0 by (simp add: nth_list_update)
  have m': "matrix st' = (matrix st)[a0 * ?n + j0 := True]" using m ix[OF a0] ix[OF j0] by simp
  have 1: "length (matrix st') = length (blocks st') * length (blocks st')"
    using lm len m' by simp
  have 2: "\<forall>i<length (blocks st'). idx (blocks st' ! i) = i"
    using ix nth len by simp
  have 3: "insert (a0, j0) L \<subseteq> {..<length (blocks st')} \<times> {..<length (blocks st')}"
    using sub a0 j0 len by auto
  have 4: "\<forall>a<length (blocks st'). set (leftN (blocks st' ! a)) = {j. (a, j) \<in> insert (a0, j0) L}"
  proof (intro allI impI)
    fix a assume "a < length (blocks st')"
    then have a: "a < ?n" using len by simp
    show "set (leftN (blocks st' ! a)) = {j. (a, j) \<in> insert (a0, j0) L}"
      using nth[OF a] ln[OF a] ne by auto
  qed
  have 5: "\<forall>j<length (blocks st'). set (rightN (blocks st' ! j)) = {a. (a, j) \<in> insert (a0, j0) L}"
  proof (intro allI impI)
    fix j assume "j < length (blocks st')"
    then have j: "j < ?n" using len by simp
    show "set (rightN (blocks st' ! j)) = {a. (a, j) \<in> insert (a0, j0) L}"
      using nth[OF j] rn[OF j] ne by auto
  qed
  have 6: "\<forall>a<length (blocks st'). \<forall>j<length (blocks st').
         matrix st' ! (idx (blocks st' ! a) * length (blocks st') + idx (blocks st' ! j)) \<longleftrightarrow> (a, j) \<in> insert (a0, j0) L"
  proof (intro allI impI)
    fix a j assume "a < length (blocks st')" "j < length (blocks st')"
    then have a: "a < ?n" and j: "j < ?n" using len by simp_all
    have i1: "idx (blocks st' ! a) = a" "idx (blocks st' ! j) = j" using 2 a j len by simp_all
    have b: "a0 * ?n + j0 < length (matrix st)" using cell_bound[OF a0 j0] lm by simp
    have "matrix st' ! (a * ?n + j) \<longleftrightarrow> (a * ?n + j = a0 * ?n + j0) \<or> matrix st ! (a * ?n + j)"
      unfolding m' using b by (auto simp: nth_list_update)
    also have "\<dots> \<longleftrightarrow> (a = a0 \<and> j = j0) \<or> (a, j) \<in> L"
      using cell_inj[OF j j0] mx[OF a j] by simp
    finally show "matrix st' ! (idx (blocks st' ! a) * length (blocks st') + idx (blocks st' ! j)) \<longleftrightarrow> (a, j) \<in> insert (a0, j0) L"
      using i1 len by auto
  qed
  show ?thesis unfolding adjInv_def using 1 2 3 4 5 6 by blast
qed

lemma addEdge_inv:
  assumes inv: "adjInv st L"
    and bi: "bi < length (blocks st)" and bj: "bj < length (blocks st)" and ne: "bi \<noteq> bj"
  shows "adjInv (addEdge bi bj st) (insert (orient (blocks st) bi bj) L)"
proof (cases "depth (blocks st ! bi) < depth (blocks st ! bj)")
  case True
  have o: "orient (blocks st) bi bj = (bj, bi)" using True by (simp add: orient_def)
  show ?thesis unfolding o
  proof (rule adjInv_add[OF inv bj bi])
    show "bj \<noteq> bi" using ne by simp
    show "blocks (addEdge bi bj st) = (blocks st)[bj := (blocks st ! bj)\<lparr>leftN := leftN (blocks st ! bj) @ [bi]\<rparr>,
                bi := (blocks st ! bi)\<lparr>rightN := rightN (blocks st ! bi) @ [bj]\<rparr>]"
      using True addEdge_blocks[OF bi bj ne] by simp
    show "matrix (addEdge bi bj st) = (matrix st)[idx (blocks st ! bj) * length (blocks st) + idx (blocks st ! bi) := True]"
      using True addEdge_matrix by simp
  qed
next
  case False
  have o: "orient (blocks st) bi bj = (bi, bj)" using False by (simp add: orient_def)
  show ?thesis unfolding o
  proof (rule adjInv_add[OF inv bi bj ne])
    show "blocks (addEdge bi bj st) = (blocks st)[bi := (blocks st ! bi)\<lparr>leftN := leftN (blocks st ! bi) @ [bj]\<rparr>,
                bj := (blocks st ! bj)\<lparr>rightN := rightN (blocks st ! bj) @ [bi]\<rparr>]"
      using False addEdge_blocks[OF bi bj ne] ne by (simp add: list_update_swap)
    show "matrix (addEdge bi bj st) = (matrix st)[idx (blocks st ! bi) * length (blocks st) + idx (blocks st ! bj) := True]"
      using False addEdge_matrix by simp
  qed
qed

lemma orient_frame:
  "adjFrame bs0 bs \<Longrightarrow> bi < length bs0 \<Longrightarrow> bj < length bs0 \<Longrightarrow> orient bs bi bj = orient bs0 bi bj"
  by (simp add: orient_def adjFrame_def)

lemma adjInner_inv:
  assumes "adjInv st L" and "adjFrame bs0 (blocks st)" and "bi < length bs0"
    and "set rest \<subseteq> {..<length bs0}" and "bi \<notin> set rest"
  shows "adjInv (adjInner d bi rest st)
           (L \<union> orient bs0 bi ` set (takeWhile (\<lambda>bj. startMin (bs0 ! bj) + d < endMin (bs0 ! bi)) rest)) \<and>
         adjFrame bs0 (blocks (adjInner d bi rest st)) \<and>
         blocksReordered (adjInner d bi rest st) = blocksReordered st"
  using assms
proof (induction rest arbitrary: st L)
  case Nil
  then show ?case by simp
next
  case (Cons bj rest)
  have len: "length (blocks st) = length bs0" using Cons.prems(2) by (simp add: adjFrame_def)
  have bj: "bj < length bs0" and ne: "bi \<noteq> bj" using Cons.prems(4,5) by auto
  have s: "startMin (blocks st ! bj) = startMin (bs0 ! bj)" and e: "endMin (blocks st ! bi) = endMin (bs0 ! bi)"
    using adjFrame_fields[OF Cons.prems(2)] bj Cons.prems(3) by simp_all
  show ?case
  proof (cases "startMin (bs0 ! bj) + d < endMin (bs0 ! bi)")
    case False
    then show ?thesis using Cons.prems(1,2) s e by simp
  next
    case True
    let ?st1 = "addEdge bi bj st"
    have i1: "adjInv ?st1 (insert (orient bs0 bi bj) L)"
      using addEdge_inv[OF Cons.prems(1), of bi bj] Cons.prems(3) bj ne len
        orient_frame[OF Cons.prems(2) Cons.prems(3) bj] by simp
    have "adjFrame (blocks st) (blocks ?st1)"
      using addEdge_frame[of bi st bj] Cons.prems(3) bj ne len by simp
    then have f1: "adjFrame bs0 (blocks ?st1)" using Cons.prems(2) adjFrame_trans by blast
    from Cons.IH[OF i1 f1 Cons.prems(3)] Cons.prems(4,5)
    have "adjInv (adjInner d bi rest ?st1)
           (insert (orient bs0 bi bj) L \<union> orient bs0 bi ` set (takeWhile (\<lambda>bj. startMin (bs0 ! bj) + d < endMin (bs0 ! bi)) rest)) \<and>
         adjFrame bs0 (blocks (adjInner d bi rest ?st1)) \<and>
         blocksReordered (adjInner d bi rest ?st1) = blocksReordered ?st1"
      by simp
    moreover have "adjInner d bi (bj # rest) st = adjInner d bi rest ?st1" using True s e by simp
    moreover have "L \<union> orient bs0 bi ` set (takeWhile (\<lambda>bj. startMin (bs0 ! bj) + d < endMin (bs0 ! bi)) (bj # rest))
        = insert (orient bs0 bi bj) L \<union> orient bs0 bi ` set (takeWhile (\<lambda>bj. startMin (bs0 ! bj) + d < endMin (bs0 ! bi)) rest)"
      using True by auto
    ultimately show ?thesis by simp
  qed
qed

lemma takeWhile_sorted:
  fixes s :: "nat \<Rightarrow> int"
  assumes "sorted_wrt (\<lambda>p q. s p \<le> s q) rest"
  shows "set (takeWhile (\<lambda>bj. s bj + d < e) rest) = {bj \<in> set rest. s bj + d < e}"
  using assms
proof (induction rest)
  case Nil
  then show ?case by simp
next
  case (Cons y ys)
  show ?case
  proof (cases "s y + d < e")
    case True
    with Cons show ?thesis by auto
  next
    case False
    have "\<And>z. z \<in> set ys \<Longrightarrow> \<not> s z + d < e"
    proof -
      fix z assume "z \<in> set ys"
      then have "s y \<le> s z" using Cons.prems by simp
      with False show "\<not> s z + d < e" by simp
    qed
    with False show ?thesis by auto
  qed
qed

lemma adjOuter_inv:
  assumes "adjInv st L" and "adjFrame bs0 (blocks st)"
    and "distinct ord" and "set ord \<subseteq> {..<length bs0}"
    and "sorted_wrt (\<lambda>p q. startMin (bs0 ! p) \<le> startMin (bs0 ! q)) ord"
  shows "adjInv (adjOuter d ord st) (L \<union> leftRel d bs0 ord) \<and>
         adjFrame bs0 (blocks (adjOuter d ord st)) \<and>
         blocksReordered (adjOuter d ord st) = blocksReordered st"
  using assms
proof (induction ord arbitrary: st L)
  case Nil
  then show ?case by (simp add: leftRel_def)
next
  case (Cons bi rest)
  let ?E = "orient bs0 bi ` set (takeWhile (\<lambda>bj. startMin (bs0 ! bj) + d < endMin (bs0 ! bi)) rest)"
  let ?st1 = "adjInner d bi rest st"
  have bi: "bi < length bs0" "bi \<notin> set rest" and r: "set rest \<subseteq> {..<length bs0}"
    using Cons.prems(3,4) by auto
  from adjInner_inv[OF Cons.prems(1,2) bi(1) r bi(2), of d]
  have i1: "adjInv ?st1 (L \<union> ?E)" and f1: "adjFrame bs0 (blocks ?st1)"
    and o1: "blocksReordered ?st1 = blocksReordered st" by auto
  have dr: "distinct rest" and sr: "sorted_wrt (\<lambda>p q. startMin (bs0 ! p) \<le> startMin (bs0 ! q)) rest"
    using Cons.prems(3,5) by auto
  from Cons.IH[OF i1 f1 dr r sr]
  have i2: "adjInv (adjOuter d rest ?st1) (L \<union> ?E \<union> leftRel d bs0 rest)"
    and f2: "adjFrame bs0 (blocks (adjOuter d rest ?st1))"
    and o2: "blocksReordered (adjOuter d rest ?st1) = blocksReordered ?st1" by auto
  have E: "set (takeWhile (\<lambda>bj. startMin (bs0 ! bj) + d < endMin (bs0 ! bi)) rest)
      = {bj \<in> set rest. startMin (bs0 ! bj) + d < endMin (bs0 ! bi)}"
    by (rule takeWhile_sorted[OF sr])
  have "leftRel d bs0 (bi # rest) = ?E \<union> leftRel d bs0 rest"
  proof (rule set_eqI, rule iffI)
    fix p assume "p \<in> leftRel d bs0 (bi # rest)"
    then obtain i k where ik: "i < k" "k < length (bi # rest)"
      "startMin (bs0 ! ((bi # rest) ! k)) + d < endMin (bs0 ! ((bi # rest) ! i))"
      "p = orient bs0 ((bi # rest) ! i) ((bi # rest) ! k)"
      unfolding leftRel_def by blast
    from ik(1) obtain k' where k': "k = Suc k'" by (cases k) auto
    show "p \<in> ?E \<union> leftRel d bs0 rest"
    proof (cases i)
      case 0
      have "rest ! k' \<in> set rest" using ik(2) k' by simp
      then have "rest ! k' \<in> {bj \<in> set rest. startMin (bs0 ! bj) + d < endMin (bs0 ! bi)}"
        using ik(3) 0 k' by simp
      then have "orient bs0 bi (rest ! k') \<in> ?E" unfolding E by (rule imageI)
      then show ?thesis using ik(4) 0 k' by simp
    next
      case (Suc i')
      then have "i' < k'" "k' < length rest"
        "startMin (bs0 ! (rest ! k')) + d < endMin (bs0 ! (rest ! i'))"
        "p = orient bs0 (rest ! i') (rest ! k')"
        using ik k' by simp_all
      then have "p \<in> leftRel d bs0 rest" unfolding leftRel_def by blast
      then show ?thesis by simp
    qed
  next
    fix p assume "p \<in> ?E \<union> leftRel d bs0 rest"
    then show "p \<in> leftRel d bs0 (bi # rest)"
    proof
      assume "p \<in> ?E"
      then obtain bj where bj: "bj \<in> set rest" "startMin (bs0 ! bj) + d < endMin (bs0 ! bi)"
        "p = orient bs0 bi bj" unfolding E by blast
      from bj(1) obtain k' where k': "k' < length rest" "rest ! k' = bj" by (auto simp: in_set_conv_nth)
      have "0 < Suc k' \<and> Suc k' < length (bi # rest) \<and>
        startMin (bs0 ! ((bi # rest) ! Suc k')) + d < endMin (bs0 ! ((bi # rest) ! 0)) \<and>
        p = orient bs0 ((bi # rest) ! 0) ((bi # rest) ! Suc k')"
        using k' bj by simp
      then show ?thesis unfolding leftRel_def by blast
    next
      assume "p \<in> leftRel d bs0 rest"
      then obtain i k where ik: "i < k" "k < length rest"
        "startMin (bs0 ! (rest ! k)) + d < endMin (bs0 ! (rest ! i))"
        "p = orient bs0 (rest ! i) (rest ! k)"
        unfolding leftRel_def by blast
      then have "Suc i < Suc k \<and> Suc k < length (bi # rest) \<and>
        startMin (bs0 ! ((bi # rest) ! Suc k)) + d < endMin (bs0 ! ((bi # rest) ! Suc i)) \<and>
        p = orient bs0 ((bi # rest) ! Suc i) ((bi # rest) ! Suc k)"
        by simp
      then show ?thesis unfolding leftRel_def by blast
    qed
  qed
  then have "L \<union> leftRel d bs0 (bi # rest) = L \<union> ?E \<union> leftRel d bs0 rest" by auto
  then show ?case using i2 f2 o2 o1 by simp
qed

subsection \<open>The state after S1 and S2\<close>

lemma frameDepth_fields:
  assumes "frameDepth bs0 bs" and "i < length bs0"
  shows "idx (bs ! i) = idx (bs0 ! i)" and "leftN (bs ! i) = leftN (bs0 ! i)"
    and "rightN (bs ! i) = rightN (bs0 ! i)" and "cleftN (bs ! i) = cleftN (bs0 ! i)"
    and "crightN (bs ! i) = crightN (bs0 ! i)" and "visited (bs ! i) = visited (bs0 ! i)"
    and "isFixed (bs ! i) = isFixed (bs0 ! i)"
proof -
  from assms have e: "bs ! i = (bs0 ! i)\<lparr>depth := depth (bs ! i)\<rparr>"
    by (simp add: frameDepth_def)
  show "idx (bs ! i) = idx (bs0 ! i)" by (subst e) simp
  show "leftN (bs ! i) = leftN (bs0 ! i)" by (subst e) simp
  show "rightN (bs ! i) = rightN (bs0 ! i)" by (subst e) simp
  show "cleftN (bs ! i) = cleftN (bs0 ! i)" by (subst e) simp
  show "crightN (bs ! i) = crightN (bs0 ! i)" by (subst e) simp
  show "visited (bs ! i) = visited (bs0 ! i)" by (subst e) simp
  show "isFixed (bs ! i) = isFixed (bs0 ! i)" by (subst e) simp
qed

lemma afterS1_facts:
  assumes ne: "arr \<noteq> []"
  shows "\<exists>R. s1Inv (s1Tau opts) (blocks (setupBlocks arr)) (blocksReordered (afterS1 opts arr))
           (blocks (afterS1 opts arr)) R (snd (stageS1 opts (setupBlocks arr)) - 1)"
    and "orderOK (blocks (setupBlocks arr)) (blocksReordered (afterS1 opts arr))"
    and "matrix (afterS1 opts arr) = replicate (length arr * length arr) False"
    and "length (blocks (afterS1 opts arr)) = length arr"
proof -
  have r: "stageS1 opts (setupBlocks arr) = (afterS1 opts arr, snd (stageS1 opts (setupBlocks arr)))"
    by (simp add: afterS1_def)
  from stageS1_post[OF ne r]
  obtain R where inv: "s1Inv (s1Tau opts) (blocks (setupBlocks arr)) (blocksReordered (afterS1 opts arr))
           (blocks (afterS1 opts arr)) R (snd (stageS1 opts (setupBlocks arr)) - 1)"
    and ok: "orderOK (blocks (setupBlocks arr)) (blocksReordered (afterS1 opts arr))"
    and m: "matrix (afterS1 opts arr) = matrix (setupBlocks arr)" by blast
  show "\<exists>R. s1Inv (s1Tau opts) (blocks (setupBlocks arr)) (blocksReordered (afterS1 opts arr))
           (blocks (afterS1 opts arr)) R (snd (stageS1 opts (setupBlocks arr)) - 1)" using inv by blast
  show "orderOK (blocks (setupBlocks arr)) (blocksReordered (afterS1 opts arr))" by (rule ok)
  show "matrix (afterS1 opts arr) = replicate (length arr * length arr) False"
    using m by (simp add: setupBlocks_def)
  show "length (blocks (afterS1 opts arr)) = length arr"
    using s1Inv_length[OF inv] by simp
qed

lemma afterS1_block:
  assumes ne: "arr \<noteq> []" and i: "i < length arr"
  shows "startMin (blocks (afterS1 opts arr) ! i) = fst (arr ! i)"
    and "endMin (blocks (afterS1 opts arr) ! i) = snd (arr ! i)"
    and "idx (blocks (afterS1 opts arr) ! i) = i"
    and "leftN (blocks (afterS1 opts arr) ! i) = []"
    and "rightN (blocks (afterS1 opts arr) ! i) = []"
    and "cleftN (blocks (afterS1 opts arr) ! i) = []"
    and "crightN (blocks (afterS1 opts arr) ! i) = []"
    and "visited (blocks (afterS1 opts arr) ! i) = False"
proof -
  from afterS1_facts(1)[OF ne] obtain R where
    "s1Inv (s1Tau opts) (blocks (setupBlocks arr)) (blocksReordered (afterS1 opts arr))
           (blocks (afterS1 opts arr)) R (snd (stageS1 opts (setupBlocks arr)) - 1)" by blast
  then have fr: "frameDepth (blocks (setupBlocks arr)) (blocks (afterS1 opts arr))"
    by (simp add: s1Inv_def)
  have i': "i < length (blocks (setupBlocks arr))" using i by simp
  have b0: "blocks (setupBlocks arr) ! i = initBlock i (arr ! i)" by (rule nth_setupBlocks[OF i])
  show "startMin (blocks (afterS1 opts arr) ! i) = fst (arr ! i)"
    using frameDepth_start[OF fr i'] b0 by (simp add: initBlock_def)
  show "endMin (blocks (afterS1 opts arr) ! i) = snd (arr ! i)"
    using frameDepth_end[OF fr i'] b0 by (simp add: initBlock_def)
  show "idx (blocks (afterS1 opts arr) ! i) = i"
    using frameDepth_fields(1)[OF fr i'] b0 by (simp add: initBlock_def)
  show "leftN (blocks (afterS1 opts arr) ! i) = []"
    using frameDepth_fields(2)[OF fr i'] b0 by (simp add: initBlock_def)
  show "rightN (blocks (afterS1 opts arr) ! i) = []"
    using frameDepth_fields(3)[OF fr i'] b0 by (simp add: initBlock_def)
  show "cleftN (blocks (afterS1 opts arr) ! i) = []"
    using frameDepth_fields(4)[OF fr i'] b0 by (simp add: initBlock_def)
  show "crightN (blocks (afterS1 opts arr) ! i) = []"
    using frameDepth_fields(5)[OF fr i'] b0 by (simp add: initBlock_def)
  show "visited (blocks (afterS1 opts arr) ! i) = False"
    using frameDepth_fields(6)[OF fr i'] b0 by (simp add: initBlock_def)
qed

lemma orderOK_frame:
  assumes "orderOK bs0 ord" and "length bs = length bs0"
    and "\<And>i. i < length bs0 \<Longrightarrow> startMin (bs ! i) = startMin (bs0 ! i)"
  shows "orderOK bs ord"
proof -
  from assms(1) have d: "distinct ord" and s: "set ord = {..<length bs0}"
    and srt: "sorted_wrt (\<lambda>p q. startMin (bs0 ! p) \<le> startMin (bs0 ! q)) ord"
    unfolding orderOK_def by blast+
  have "sorted_wrt (\<lambda>p q. startMin (bs ! p) \<le> startMin (bs ! q)) ord"
  proof (rule sorted_wrt_mono_rel[OF _ srt])
    fix p q assume "p \<in> set ord" "q \<in> set ord" "startMin (bs0 ! p) \<le> startMin (bs0 ! q)"
    then show "startMin (bs ! p) \<le> startMin (bs ! q)" using assms(3) s by simp
  qed
  then show ?thesis unfolding orderOK_def using d s assms(2) by simp
qed

lemma afterS1_order: "arr \<noteq> [] \<Longrightarrow> orderOK (blocks (afterS1 opts arr)) (blocksReordered (afterS1 opts arr))"
proof -
  assume ne: "arr \<noteq> []"
  show ?thesis
  proof (rule orderOK_frame[OF afterS1_facts(2)[OF ne]])
    show "length (blocks (afterS1 opts arr)) = length (blocks (setupBlocks arr))"
      using afterS1_facts(4)[OF ne] by simp
    fix i assume "i < length (blocks (setupBlocks arr))"
    then have i: "i < length arr" by simp
    show "startMin (blocks (afterS1 opts arr) ! i) = startMin (blocks (setupBlocks arr) ! i)"
      using afterS1_block(1)[OF ne i] nth_setupBlocks[OF i] by (simp add: initBlock_def)
  qed
qed

lemma afterS1_adjInv:
  assumes ne: "arr \<noteq> []"
  shows "adjInv (afterS1 opts arr) {}"
proof -
  let ?st = "afterS1 opts arr"
  have len: "length (blocks ?st) = length arr" by (rule afterS1_facts(4)[OF ne])
  have m: "matrix ?st = replicate (length arr * length arr) False" by (rule afterS1_facts(3)[OF ne])
  have ix: "\<And>i. i < length arr \<Longrightarrow> idx (blocks ?st ! i) = i" by (rule afterS1_block(3)[OF ne])
  have l: "\<And>i. i < length arr \<Longrightarrow> leftN (blocks ?st ! i) = []" by (rule afterS1_block(4)[OF ne])
  have r: "\<And>i. i < length arr \<Longrightarrow> rightN (blocks ?st ! i) = []" by (rule afterS1_block(5)[OF ne])
  show ?thesis unfolding adjInv_def len m using ix l r by (simp add: cell_bound)
qed

lemma afterS2_facts:
  assumes ne: "arr \<noteq> []"
  shows "adjInv (afterS2 opts arr)
           (leftRel (dfsTolerance opts) (blocks (afterS1 opts arr)) (blocksReordered (afterS1 opts arr)))"
    and "adjFrame (blocks (afterS1 opts arr)) (blocks (afterS2 opts arr))"
    and "blocksReordered (afterS2 opts arr) = blocksReordered (afterS1 opts arr)"
proof -
  let ?st = "afterS1 opts arr"
  have ok: "orderOK (blocks ?st) (blocksReordered ?st)" by (rule afterS1_order[OF ne])
  then have d: "distinct (blocksReordered ?st)" and s: "set (blocksReordered ?st) \<subseteq> {..<length (blocks ?st)}"
    and srt: "sorted_wrt (\<lambda>p q. startMin (blocks ?st ! p) \<le> startMin (blocks ?st ! q)) (blocksReordered ?st)"
    unfolding orderOK_def by blast+
  from adjOuter_inv[where d="dfsTolerance opts", OF afterS1_adjInv[OF ne] adjFrame_refl d s srt]
  show "adjInv (afterS2 opts arr)
           (leftRel (dfsTolerance opts) (blocks (afterS1 opts arr)) (blocksReordered (afterS1 opts arr)))"
    and "adjFrame (blocks (afterS1 opts arr)) (blocks (afterS2 opts arr))"
    and "blocksReordered (afterS2 opts arr) = blocksReordered (afterS1 opts arr)"
    by (simp_all add: afterS2_def constructAdjList_def)
qed

subsection \<open>The recorded pairs and the conflicts\<close>

lemma conflict_sym: "conflict d a b \<longleftrightarrow> conflict d b a"
  by (auto simp: conflict_def max_def min_def)

lemma orderOK_pos:
  assumes "orderOK bs ord" and "a < length bs"
  obtains i where "i < length ord" and "ord ! i = a"
  using assms orderOK_mem[OF assms(1), of a] by (auto simp: in_set_conv_nth)

lemma orderOK_sorted_nth:
  assumes "orderOK bs ord" and "i < k" and "k < length ord"
  shows "startMin (bs ! (ord ! i)) \<le> startMin (bs ! (ord ! k))" and "ord ! i \<noteq> ord ! k"
    and "ord ! i < length bs" and "ord ! k < length bs"
proof -
  from assms(1) have d: "distinct ord"
    and srt: "sorted_wrt (\<lambda>p q. startMin (bs ! p) \<le> startMin (bs ! q)) ord"
    unfolding orderOK_def by blast+
  show "startMin (bs ! (ord ! i)) \<le> startMin (bs ! (ord ! k))"
    using sorted_wrt_nth_less[OF srt assms(2,3)] .
  show "ord ! i \<noteq> ord ! k" using d assms(2,3) by (simp add: nth_eq_iff_index_eq)
  have "ord ! i \<in> set ord" "ord ! k \<in> set ord" using assms(2,3) by simp_all
  then show "ord ! i < length bs" "ord ! k < length bs" using orderOK_mem[OF assms(1)] by simp_all
qed

lemma leftRel_conflict:
  assumes ok: "orderOK bs ord"
    and valid: "\<And>i. i < length bs \<Longrightarrow> startMin (bs ! i) < endMin (bs ! i)"
    and d: "d \<le> 0"
    and dd: "\<And>x y. x < length bs \<Longrightarrow> y < length bs \<Longrightarrow> x \<noteq> y \<Longrightarrow> conflict d (bs ! x) (bs ! y)
        \<Longrightarrow> depth (bs ! x) \<noteq> depth (bs ! y)"
    and a: "a < length bs" and j: "j < length bs"
  shows "(a, j) \<in> leftRel d bs ord \<longleftrightarrow> depth (bs ! j) < depth (bs ! a) \<and> conflict d (bs ! a) (bs ! j)"
proof
  assume "(a, j) \<in> leftRel d bs ord"
  then obtain i k where ik: "i < k" "k < length ord"
    and c: "startMin (bs ! (ord ! k)) + d < endMin (bs ! (ord ! i))"
    and o: "(a, j) = orient bs (ord ! i) (ord ! k)"
    unfolding leftRel_def by blast
  let ?bi = "ord ! i" and ?bj = "ord ! k"
  note n = orderOK_sorted_nth[OF ok ik]
  have cf: "conflict d (bs ! ?bi) (bs ! ?bj)"
    using c n(1) valid[OF n(4)] d by (simp add: conflict_def max_def)
  from dd[OF n(3,4,2) cf] have ne: "depth (bs ! ?bi) \<noteq> depth (bs ! ?bj)" .
  show "depth (bs ! j) < depth (bs ! a) \<and> conflict d (bs ! a) (bs ! j)"
  proof (cases "depth (bs ! ?bi) < depth (bs ! ?bj)")
    case True
    with o have "a = ?bj" "j = ?bi" by (simp_all add: orient_def)
    with True cf conflict_sym show ?thesis by blast
  next
    case False
    with o have "a = ?bi" "j = ?bj" by (simp_all add: orient_def)
    with False ne cf show ?thesis by simp
  qed
next
  assume h: "depth (bs ! j) < depth (bs ! a) \<and> conflict d (bs ! a) (bs ! j)"
  then have aj: "a \<noteq> j" by auto
  from orderOK_pos[OF ok a] obtain pa where pa: "pa < length ord" "ord ! pa = a" by blast
  from orderOK_pos[OF ok j] obtain pj where pj: "pj < length ord" "ord ! pj = j" by blast
  have pp: "pa \<noteq> pj" using pa pj aj by auto
  from h have c1: "startMin (bs ! j) + d < endMin (bs ! a)" and c2: "startMin (bs ! a) + d < endMin (bs ! j)"
    by (auto simp: conflict_def max_def min_def split: if_splits)
  show "(a, j) \<in> leftRel d bs ord"
  proof (cases "pa < pj")
    case True
    have "orient bs (ord ! pa) (ord ! pj) = (a, j)" using h pa pj by (simp add: orient_def)
    then have "pa < pj \<and> pj < length ord \<and> startMin (bs ! (ord ! pj)) + d < endMin (bs ! (ord ! pa))
       \<and> (a, j) = orient bs (ord ! pa) (ord ! pj)" using True pa pj c1 by simp
    then show ?thesis unfolding leftRel_def by blast
  next
    case False
    with pp have lt: "pj < pa" by simp
    have "orient bs (ord ! pj) (ord ! pa) = (a, j)" using h pa pj by (simp add: orient_def)
    then have "pj < pa \<and> pa < length ord \<and> startMin (bs ! (ord ! pa)) + d < endMin (bs ! (ord ! pj))
       \<and> (a, j) = orient bs (ord ! pj) (ord ! pa)" using lt pa pj c2 by simp
    then show ?thesis unfolding leftRel_def by blast
  qed
qed

lemma conflict_leftRel:
  assumes ok: "orderOK bs ord" and a: "a < length bs" and j: "j < length bs"
    and h: "depth (bs ! j) < depth (bs ! a) \<and> conflict d (bs ! a) (bs ! j)"
  shows "(a, j) \<in> leftRel d bs ord"
proof -
  from h have aj: "a \<noteq> j" by auto
  from orderOK_pos[OF ok a] obtain pa where pa: "pa < length ord" "ord ! pa = a" by blast
  from orderOK_pos[OF ok j] obtain pj where pj: "pj < length ord" "ord ! pj = j" by blast
  have pp: "pa \<noteq> pj" using pa pj aj by auto
  from h have c1: "startMin (bs ! j) + d < endMin (bs ! a)" and c2: "startMin (bs ! a) + d < endMin (bs ! j)"
    by (auto simp: conflict_def max_def min_def split: if_splits)
  show "(a, j) \<in> leftRel d bs ord"
  proof (cases "pa < pj")
    case True
    have "orient bs (ord ! pa) (ord ! pj) = (a, j)" using h pa pj by (simp add: orient_def)
    then have "pa < pj \<and> pj < length ord \<and> startMin (bs ! (ord ! pj)) + d < endMin (bs ! (ord ! pa))
       \<and> (a, j) = orient bs (ord ! pa) (ord ! pj)" using True pa pj c1 by simp
    then show ?thesis unfolding leftRel_def by blast
  next
    case False
    with pp have lt: "pj < pa" by simp
    have "orient bs (ord ! pj) (ord ! pa) = (a, j)" using h pa pj by (simp add: orient_def)
    then have "pj < pa \<and> pa < length ord \<and> startMin (bs ! (ord ! pa)) + d < endMin (bs ! (ord ! pj))
       \<and> (a, j) = orient bs (ord ! pj) (ord ! pa)" using lt pa pj c2 by simp
    then show ?thesis unfolding leftRel_def by blast
  qed
qed

lemma afterS1_distinct_depth:
  assumes ne: "arr \<noteq> []" and td: "s1Tau opts \<le> d"
    and a: "a < length arr" and b: "b < length arr" and ab: "a \<noteq> b"
    and cf: "conflict d (blocks (afterS1 opts arr) ! a) (blocks (afterS1 opts arr) ! b)"
  shows "depth (blocks (afterS1 opts arr) ! a) \<noteq> depth (blocks (afterS1 opts arr) ! b)"
proof -
  from afterS1_facts(1)[OF ne] obtain R where
    inv: "s1Inv (s1Tau opts) (blocks (setupBlocks arr)) (blocksReordered (afterS1 opts arr))
           (blocks (afterS1 opts arr)) R (snd (stageS1 opts (setupBlocks arr)) - 1)" by blast
  have "conflict d (blocks (setupBlocks arr) ! a) (blocks (setupBlocks arr) ! b)"
    using cf afterS1_block(1,2)[OF ne a] afterS1_block(1,2)[OF ne b] nth_setupBlocks[OF a] nth_setupBlocks[OF b]
    by (simp add: conflict_def initBlock_def)
  from s1_distinct_depth[OF inv afterS1_facts(2)[OF ne] _ _ ab this td] a b
  show ?thesis by simp
qed

lemma afterS1_valid:
  assumes "validInput arr" and "i < length arr"
  shows "startMin (blocks (afterS1 opts arr) ! i) < endMin (blocks (afterS1 opts arr) ! i)"
proof -
  have ne: "arr \<noteq> []" using assms(2) by auto
  have "arr ! i \<in> set arr" using assms(2) by simp
  then have "fst (arr ! i) < snd (arr ! i)" using assms(1) by (auto simp: validInput_def list_all_iff)
  then show ?thesis using afterS1_block(1,2)[OF ne assms(2)] by simp
qed

subsection \<open>C5: the adjacency lists after S2\<close>

lemma afterS2_length: "arr \<noteq> [] \<Longrightarrow> length (blocks (afterS2 opts arr)) = length arr"
  using afterS2_facts(2)[of arr opts] afterS1_facts(4)[of arr opts] by (simp add: adjFrame_def)

lemma afterS2_fields:
  assumes ne: "arr \<noteq> []" and i: "i < length arr"
  shows "depth (blocks (afterS2 opts arr) ! i) = depth (blocks (afterS1 opts arr) ! i)"
    and "startMin (blocks (afterS2 opts arr) ! i) = startMin (blocks (afterS1 opts arr) ! i)"
    and "endMin (blocks (afterS2 opts arr) ! i) = endMin (blocks (afterS1 opts arr) ! i)"
    and "idx (blocks (afterS2 opts arr) ! i) = i"
    and "cleftN (blocks (afterS2 opts arr) ! i) = []"
    and "crightN (blocks (afterS2 opts arr) ! i) = []"
    and "visited (blocks (afterS2 opts arr) ! i) = False"
proof -
  have i': "i < length (blocks (afterS1 opts arr))" using i afterS1_facts(4)[OF ne] by simp
  note f = adjFrame_fields[OF afterS2_facts(2)[OF ne] i']
  show "depth (blocks (afterS2 opts arr) ! i) = depth (blocks (afterS1 opts arr) ! i)" by (rule f(1))
  show "startMin (blocks (afterS2 opts arr) ! i) = startMin (blocks (afterS1 opts arr) ! i)" by (rule f(2))
  show "endMin (blocks (afterS2 opts arr) ! i) = endMin (blocks (afterS1 opts arr) ! i)" by (rule f(3))
  show "idx (blocks (afterS2 opts arr) ! i) = i" using f(4) afterS1_block(3)[OF ne i] by simp
  show "cleftN (blocks (afterS2 opts arr) ! i) = []" using f(5) afterS1_block(6)[OF ne i] by simp
  show "crightN (blocks (afterS2 opts arr) ! i) = []" using f(6) afterS1_block(7)[OF ne i] by simp
  show "visited (blocks (afterS2 opts arr) ! i) = False" using f(7) afterS1_block(8)[OF ne i] by simp
qed

lemma afterS2_rel:
  assumes ne: "arr \<noteq> []" and a: "a < length arr" and j: "j < length arr"
  shows "j \<in> set (leftN (blocks (afterS2 opts arr) ! a)) \<longleftrightarrow>
           (a, j) \<in> leftRel (dfsTolerance opts) (blocks (afterS1 opts arr)) (blocksReordered (afterS1 opts arr))"
    and "a \<in> set (rightN (blocks (afterS2 opts arr) ! j)) \<longleftrightarrow>
           (a, j) \<in> leftRel (dfsTolerance opts) (blocks (afterS1 opts arr)) (blocksReordered (afterS1 opts arr))"
    and "matrix (afterS2 opts arr) ! (a * length arr + j) \<longleftrightarrow>
           (a, j) \<in> leftRel (dfsTolerance opts) (blocks (afterS1 opts arr)) (blocksReordered (afterS1 opts arr))"
proof -
  let ?L = "leftRel (dfsTolerance opts) (blocks (afterS1 opts arr)) (blocksReordered (afterS1 opts arr))"
  let ?st = "afterS2 opts arr"
  have len: "length (blocks ?st) = length arr" by (rule afterS2_length[OF ne])
  from afterS2_facts(1)[OF ne, of opts]
  have ln: "\<And>a. a < length arr \<Longrightarrow> set (leftN (blocks ?st ! a)) = {j. (a, j) \<in> ?L}"
    and rn: "\<And>j. j < length arr \<Longrightarrow> set (rightN (blocks ?st ! j)) = {a. (a, j) \<in> ?L}"
    and mx: "\<And>a j. a < length arr \<Longrightarrow> j < length arr \<Longrightarrow>
        matrix ?st ! (idx (blocks ?st ! a) * length arr + idx (blocks ?st ! j)) \<longleftrightarrow> (a, j) \<in> ?L"
    unfolding adjInv_def len by blast+
  show "j \<in> set (leftN (blocks ?st ! a)) \<longleftrightarrow> (a, j) \<in> ?L" using ln[OF a] by simp
  show "a \<in> set (rightN (blocks ?st ! j)) \<longleftrightarrow> (a, j) \<in> ?L" using rn[OF j] by simp
  show "matrix ?st ! (a * length arr + j) \<longleftrightarrow> (a, j) \<in> ?L"
    using mx[OF a j] afterS2_fields(4)[OF ne a] afterS2_fields(4)[OF ne j] by simp
qed

lemma afterS2_leftN_bound:
  assumes ne: "arr \<noteq> []" and a: "a < length arr"
  shows "set (leftN (blocks (afterS2 opts arr) ! a)) \<subseteq> {..<length arr}"
    and "set (rightN (blocks (afterS2 opts arr) ! a)) \<subseteq> {..<length arr}"
proof -
  let ?L = "leftRel (dfsTolerance opts) (blocks (afterS1 opts arr)) (blocksReordered (afterS1 opts arr))"
  let ?st = "afterS2 opts arr"
  have len: "length (blocks ?st) = length arr" by (rule afterS2_length[OF ne])
  from afterS2_facts(1)[OF ne, of opts]
  have sub: "?L \<subseteq> {..<length arr} \<times> {..<length arr}"
    and ln: "\<And>a. a < length arr \<Longrightarrow> set (leftN (blocks ?st ! a)) = {j. (a, j) \<in> ?L}"
    and rn: "\<And>j. j < length arr \<Longrightarrow> set (rightN (blocks ?st ! j)) = {a. (a, j) \<in> ?L}"
    unfolding adjInv_def len by blast+
  show "set (leftN (blocks ?st ! a)) \<subseteq> {..<length arr}" using ln[OF a] sub by auto
  show "set (rightN (blocks ?st ! a)) \<subseteq> {..<length arr}" using rn[OF a] sub by auto
qed

text \<open>
  C5, amended. After S2, for all blocks \<open>a\<close> and \<open>j\<close>, for every input and all options: \<open>j\<close> is
  in \<open>a.leftN\<close> iff \<open>a\<close> is in \<open>j.rightN\<close>, and the matrix cell \<open>a.idx * N + j.idx\<close> is set
  exactly when \<open>j\<close> is in \<open>a.leftN\<close>. For a valid input and tolerances in the range in which
  the sums of S1 and S2 do not overflow (\<open>tolInRange\<close>): if \<open>j.depth < a.depth\<close> and \<open>a\<close>, \<open>j\<close>
  conflict, then \<open>j\<close> is in \<open>a.leftN\<close>; and when moreover \<open>dfsTolerance \<le> 0\<close> and the slack of
  S1 does not exceed it (\<open>isTolerance \<le> dfsTolerance\<close> for method 1,
  \<open>- isTolerance \<le> dfsTolerance\<close> for method 2; the defaults are \<open>0\<close> and \<open>0\<close>), \<open>j\<close> is in
  \<open>a.leftN\<close> iff \<open>j.depth < a.depth\<close> and \<open>a\<close>, \<open>j\<close> conflict.
\<close>

theorem s2_adjacency:
  assumes "a < length arr" and "j < length arr"
  shows "(j \<in> set (leftN (blocks (afterS2 opts arr) ! a)) \<longleftrightarrow>
            a \<in> set (rightN (blocks (afterS2 opts arr) ! j))) \<and>
         (matrix (afterS2 opts arr) !
             (idx (blocks (afterS2 opts arr) ! a) * length arr + idx (blocks (afterS2 opts arr) ! j)) \<longleftrightarrow>
            j \<in> set (leftN (blocks (afterS2 opts arr) ! a))) \<and>
         (validInput arr \<and> tolInRange (isTolerance opts) \<and> tolInRange (dfsTolerance opts) \<longrightarrow>
            (depth (blocks (afterS2 opts arr) ! j) < depth (blocks (afterS2 opts arr) ! a) \<and>
             conflict (dfsTolerance opts) (blocks (afterS2 opts arr) ! a) (blocks (afterS2 opts arr) ! j)
             \<longrightarrow> j \<in> set (leftN (blocks (afterS2 opts arr) ! a)))) \<and>
         (validInput arr \<and> tolInRange (isTolerance opts) \<and> tolInRange (dfsTolerance opts) \<and>
          dfsTolerance opts \<le> 0 \<and> s1Tau opts \<le> dfsTolerance opts \<longrightarrow>
            (j \<in> set (leftN (blocks (afterS2 opts arr) ! a)) \<longleftrightarrow>
               depth (blocks (afterS2 opts arr) ! j) < depth (blocks (afterS2 opts arr) ! a) \<and>
               conflict (dfsTolerance opts) (blocks (afterS2 opts arr) ! a) (blocks (afterS2 opts arr) ! j)))"
proof -
  have ne: "arr \<noteq> []" using assms(1) by auto
  let ?bs = "blocks (afterS1 opts arr)" and ?d = "dfsTolerance opts"
  let ?L = "leftRel ?d ?bs (blocksReordered (afterS1 opts arr))"
  have len: "length ?bs = length arr" by (rule afterS1_facts(4)[OF ne])
  note rel = afterS2_rel[OF ne assms, of opts]
  note fa = afterS2_fields(1,4)[OF ne assms(1), of opts] and fj = afterS2_fields(1,4)[OF ne assms(2), of opts]
  have c: "conflict ?d (blocks (afterS2 opts arr) ! a) (blocks (afterS2 opts arr) ! j)
      \<longleftrightarrow> conflict ?d (?bs ! a) (?bs ! j)"
    using afterS2_fields(2,3)[OF ne assms(1)] afterS2_fields(2,3)[OF ne assms(2)]
    by (simp add: conflict_def)
  have 1: "j \<in> set (leftN (blocks (afterS2 opts arr) ! a)) \<longleftrightarrow>
            a \<in> set (rightN (blocks (afterS2 opts arr) ! j))" using rel by simp
  have 2: "matrix (afterS2 opts arr) !
             (idx (blocks (afterS2 opts arr) ! a) * length arr + idx (blocks (afterS2 opts arr) ! j)) \<longleftrightarrow>
            j \<in> set (leftN (blocks (afterS2 opts arr) ! a))" using rel fa fj by simp
  have 3: "depth (blocks (afterS2 opts arr) ! j) < depth (blocks (afterS2 opts arr) ! a) \<and>
             conflict ?d (blocks (afterS2 opts arr) ! a) (blocks (afterS2 opts arr) ! j)
             \<longrightarrow> j \<in> set (leftN (blocks (afterS2 opts arr) ! a))"
  proof
    assume "depth (blocks (afterS2 opts arr) ! j) < depth (blocks (afterS2 opts arr) ! a) \<and>
             conflict ?d (blocks (afterS2 opts arr) ! a) (blocks (afterS2 opts arr) ! j)"
    then have "depth (?bs ! j) < depth (?bs ! a) \<and> conflict ?d (?bs ! a) (?bs ! j)"
      using c fa fj by simp
    from conflict_leftRel[OF afterS1_order[OF ne] _ _ this] assms len
    have "(a, j) \<in> ?L" by simp
    then show "j \<in> set (leftN (blocks (afterS2 opts arr) ! a))" using rel by simp
  qed
  have 4: "j \<in> set (leftN (blocks (afterS2 opts arr) ! a)) \<longleftrightarrow>
               depth (blocks (afterS2 opts arr) ! j) < depth (blocks (afterS2 opts arr) ! a) \<and>
               conflict ?d (blocks (afterS2 opts arr) ! a) (blocks (afterS2 opts arr) ! j)"
    if h: "validInput arr \<and> tolInRange (isTolerance opts) \<and> tolInRange (dfsTolerance opts) \<and>
          dfsTolerance opts \<le> 0 \<and> s1Tau opts \<le> dfsTolerance opts"
  proof -
    from h have v: "validInput arr" and d0: "?d \<le> 0" and t: "s1Tau opts \<le> ?d" by simp_all
    have L: "(a, j) \<in> ?L \<longleftrightarrow> depth (?bs ! j) < depth (?bs ! a) \<and> conflict ?d (?bs ! a) (?bs ! j)"
    proof (rule leftRel_conflict[OF afterS1_order[OF ne] _ d0])
      fix i assume "i < length ?bs"
      then show "startMin (?bs ! i) < endMin (?bs ! i)" using afterS1_valid[OF v] len by simp
    next
      fix x y assume "x < length ?bs" "y < length ?bs" "x \<noteq> y" "conflict ?d (?bs ! x) (?bs ! y)"
      then show "depth (?bs ! x) \<noteq> depth (?bs ! y)"
        using afterS1_distinct_depth[OF ne t] len by simp
    qed (use assms len in simp_all)
    show ?thesis using rel L c fa fj by simp
  qed
  show ?thesis using 1 2 3 4 by blast
qed

text \<open>
  Claim C5 fails as stated for a positive \<open>dfsTolerance\<close>: the loop of S2 compares the start of
  the later block with the end of the earlier one only, while the conflict of the
  specification also bounds the start by the later block's own end. With \<open>dfsTolerance = 10\<close>
  the block \<open>[20, 25)\<close> enters the graph as a neighbour of \<open>[0, 100)\<close> and does not conflict
  with it.
\<close>

theorem s2_adjacency_counterexample:
  "0 \<in> set (leftN (blocks (afterS2 (defaultOptions\<lparr>dfsTolerance := 10\<rparr>) [(0, 100), (20, 25)]) ! 1)) \<and>
   \<not> conflict (dfsTolerance (defaultOptions\<lparr>dfsTolerance := 10\<rparr>))
       (blocks (afterS2 (defaultOptions\<lparr>dfsTolerance := 10\<rparr>) [(0, 100), (20, 25)]) ! 1)
       (blocks (afterS2 (defaultOptions\<lparr>dfsTolerance := 10\<rparr>) [(0, 100), (20, 25)]) ! 0)"
  by code_simp

text \<open>The amended C5 on two overlapping blocks at the default options.\<close>

theorem s2_adjacency_witness:
  "(1::nat) < length [(0, 60), (30, 90) :: Input] \<and> (0::nat) < length [(0, 60), (30, 90) :: Input] \<and>
   validInput [(0, 60), (30, 90)] \<and> tolInRange (isTolerance defaultOptions) \<and>
   tolInRange (dfsTolerance defaultOptions) \<and> dfsTolerance defaultOptions \<le> 0 \<and>
   s1Tau defaultOptions \<le> dfsTolerance defaultOptions \<and>
   0 \<in> set (leftN (blocks (afterS2 defaultOptions [(0, 60), (30, 90)]) ! 1)) \<and>
   1 \<in> set (rightN (blocks (afterS2 defaultOptions [(0, 60), (30, 90)]) ! 0)) \<and>
   matrix (afterS2 defaultOptions [(0, 60), (30, 90)]) !
     (idx (blocks (afterS2 defaultOptions [(0, 60), (30, 90)]) ! 1) * length [(0, 60), (30, 90) :: Input]
        + idx (blocks (afterS2 defaultOptions [(0, 60), (30, 90)]) ! 0)) \<and>
   depth (blocks (afterS2 defaultOptions [(0, 60), (30, 90)]) ! 0)
     < depth (blocks (afterS2 defaultOptions [(0, 60), (30, 90)]) ! 1) \<and>
   conflict (dfsTolerance defaultOptions) (blocks (afterS2 defaultOptions [(0, 60), (30, 90)]) ! 1)
       (blocks (afterS2 defaultOptions [(0, 60), (30, 90)]) ! 0)"
proof -
  have v: "validInput [(0, 60), (30, 90)]" by (simp add: validInput_def INT_MAX_def)
  have r1: "tolInRange (isTolerance defaultOptions)" and r2: "tolInRange (dfsTolerance defaultOptions)"
    by (simp_all add: tolInRange_def defaultOptions_def)
  have d: "dfsTolerance defaultOptions \<le> 0" by (simp add: defaultOptions_def)
  have t: "s1Tau defaultOptions \<le> dfsTolerance defaultOptions" by (simp add: s1Tau_def defaultOptions_def)
  have a: "(1::nat) < length [(0, 60), (30, 90) :: Input]" and j: "(0::nat) < length [(0, 60), (30, 90) :: Input]" by simp_all
  have l: "0 \<in> set (leftN (blocks (afterS2 defaultOptions [(0, 60), (30, 90)]) ! 1))" by code_simp
  show ?thesis using s2_adjacency[OF a j, of defaultOptions] v r1 r2 d t l a j by blast
qed

subsection \<open>The state after S3\<close>

lemma afterS3_block:
  assumes ne: "arr \<noteq> []" and b: "b < length arr"
  shows "blocks (afterS3 opts arr) ! b = condenseBlock (afterS2 opts arr) (blocks (afterS2 opts arr) ! b)"
  using b afterS2_length[OF ne, of opts] by (simp add: afterS3_def condenseAdjList_def)

lemma afterS3_length: "arr \<noteq> [] \<Longrightarrow> length (blocks (afterS3 opts arr)) = length arr"
  using afterS2_length[of arr opts] by (simp add: afterS3_def condenseAdjList_def)

lemma afterS3_matrix: "matrix (afterS3 opts arr) = matrix (afterS2 opts arr)"
  by (simp add: afterS3_def condenseAdjList_def)

lemma afterS3_reordered: "blocksReordered (afterS3 opts arr) = blocksReordered (afterS2 opts arr)"
  by (simp add: afterS3_def condenseAdjList_def)

lemma afterS3_fields:
  assumes ne: "arr \<noteq> []" and b: "b < length arr"
  shows "leftN (blocks (afterS3 opts arr) ! b) = leftN (blocks (afterS2 opts arr) ! b)"
    and "rightN (blocks (afterS3 opts arr) ! b) = rightN (blocks (afterS2 opts arr) ! b)"
    and "depth (blocks (afterS3 opts arr) ! b) = depth (blocks (afterS2 opts arr) ! b)"
    and "idx (blocks (afterS3 opts arr) ! b) = b"
    and "visited (blocks (afterS3 opts arr) ! b) = False"
    and "startMin (blocks (afterS3 opts arr) ! b) = startMin (blocks (afterS2 opts arr) ! b)"
    and "endMin (blocks (afterS3 opts arr) ! b) = endMin (blocks (afterS2 opts arr) ! b)"
  unfolding afterS3_block[OF ne b]
  using afterS2_fields(4,7)[OF ne b, of opts] by (simp_all add: condenseBlock_def Let_def)

lemma afterS3_cleftN:
  assumes ne: "arr \<noteq> []" and b: "b < length arr"
  shows "cleftN (blocks (afterS3 opts arr) ! b) =
      filter (\<lambda>v1. \<not> list_ex (\<lambda>v. v1 \<in> set (leftN (blocks (afterS2 opts arr) ! v)))
                 (leftN (blocks (afterS2 opts arr) ! b)))
        (leftN (blocks (afterS2 opts arr) ! b))"
proof -
  let ?st = "afterS2 opts arr"
  let ?ln = "leftN (blocks ?st ! b)"
  have len: "length (blocks ?st) = length arr" by (rule afterS2_length[OF ne])
  have bd: "\<And>v. v \<in> set ?ln \<Longrightarrow> v < length arr" using afterS2_leftN_bound(1)[OF ne b, of opts] by auto
  have cell: "\<And>v v1. v \<in> set ?ln \<Longrightarrow> v1 \<in> set ?ln \<Longrightarrow>
     matrix ?st ! (idx (blocks ?st ! v) * length arr + idx (blocks ?st ! v1)) \<longleftrightarrow> v1 \<in> set (leftN (blocks ?st ! v))"
  proof -
    fix v v1 assume "v \<in> set ?ln" "v1 \<in> set ?ln"
    then have v: "v < length arr" and v1: "v1 < length arr" using bd by simp_all
    show "matrix ?st ! (idx (blocks ?st ! v) * length arr + idx (blocks ?st ! v1)) \<longleftrightarrow> v1 \<in> set (leftN (blocks ?st ! v))"
      using afterS2_rel(1,3)[OF ne v v1, of opts] afterS2_fields(4)[OF ne v] afterS2_fields(4)[OF ne v1] by simp
  qed
  have "cleftN (blocks (afterS3 opts arr) ! b) =
     filter (\<lambda>v1. \<not> list_ex (\<lambda>v. matrix ?st ! (idx (blocks ?st ! v) * length arr + idx (blocks ?st ! v1))) ?ln) ?ln"
    unfolding afterS3_block[OF ne b] using afterS2_fields(5)[OF ne b, of opts] len
    by (simp add: condenseBlock_def Let_def)
  also have "\<dots> = filter (\<lambda>v1. \<not> list_ex (\<lambda>v. v1 \<in> set (leftN (blocks ?st ! v))) ?ln) ?ln"
    by (rule filter_cong) (auto simp: list_ex_iff cell)
  finally show ?thesis .
qed

lemma afterS3_crightN:
  assumes ne: "arr \<noteq> []" and b: "b < length arr"
  shows "crightN (blocks (afterS3 opts arr) ! b) =
      filter (\<lambda>v1. \<not> list_ex (\<lambda>v. v1 \<in> set (rightN (blocks (afterS2 opts arr) ! v)))
                 (rightN (blocks (afterS2 opts arr) ! b)))
        (rightN (blocks (afterS2 opts arr) ! b))"
proof -
  let ?st = "afterS2 opts arr"
  let ?rn = "rightN (blocks ?st ! b)"
  have len: "length (blocks ?st) = length arr" by (rule afterS2_length[OF ne])
  have bd: "\<And>v. v \<in> set ?rn \<Longrightarrow> v < length arr" using afterS2_leftN_bound(2)[OF ne b, of opts] by auto
  have cell: "\<And>v v1. v \<in> set ?rn \<Longrightarrow> v1 \<in> set ?rn \<Longrightarrow>
     matrix ?st ! (idx (blocks ?st ! v1) * length arr + idx (blocks ?st ! v)) \<longleftrightarrow> v1 \<in> set (rightN (blocks ?st ! v))"
  proof -
    fix v v1 assume "v \<in> set ?rn" "v1 \<in> set ?rn"
    then have v: "v < length arr" and v1: "v1 < length arr" using bd by simp_all
    show "matrix ?st ! (idx (blocks ?st ! v1) * length arr + idx (blocks ?st ! v)) \<longleftrightarrow> v1 \<in> set (rightN (blocks ?st ! v))"
      using afterS2_rel(2,3)[OF ne v1 v, of opts] afterS2_fields(4)[OF ne v] afterS2_fields(4)[OF ne v1] by simp
  qed
  have "crightN (blocks (afterS3 opts arr) ! b) =
     filter (\<lambda>v1. \<not> list_ex (\<lambda>v. matrix ?st ! (idx (blocks ?st ! v1) * length arr + idx (blocks ?st ! v))) ?rn) ?rn"
    unfolding afterS3_block[OF ne b] using afterS2_fields(6)[OF ne b, of opts] len
    by (simp add: condenseBlock_def Let_def)
  also have "\<dots> = filter (\<lambda>v1. \<not> list_ex (\<lambda>v. v1 \<in> set (rightN (blocks ?st ! v))) ?rn) ?rn"
    by (rule filter_cong) (auto simp: list_ex_iff cell)
  finally show ?thesis .
qed

subsection \<open>C6: the condensed lists after S3\<close>

text \<open>
  C6: after S3, for every block \<open>b\<close>, \<open>cleftN b\<close> is the set of the \<open>v\<close> in \<open>leftN b\<close> that are in
  \<open>leftN w\<close> for no \<open>w\<close> in \<open>leftN b\<close> (equivalently, whose matrix cell \<open>w.idx * N + v.idx\<close> is
  false for every such \<open>w\<close>); \<open>crightN b\<close> is the set of the \<open>v\<close> in \<open>rightN b\<close> that are in
  \<open>rightN w\<close> for no \<open>w\<close> in \<open>rightN b\<close>; so \<open>cleftN b \<subseteq> leftN b\<close> and \<open>crightN b \<subseteq> rightN b\<close>. It
  holds for every input and all options (no block is in its own \<open>leftN\<close>, so "no other \<open>w\<close>" and
  "no \<open>w\<close>" agree).
\<close>

theorem s3_condensed:
  assumes "b < length arr"
  shows "set (cleftN (blocks (afterS3 opts arr) ! b)) =
           {v \<in> set (leftN (blocks (afterS3 opts arr) ! b)).
              \<forall>w\<in>set (leftN (blocks (afterS3 opts arr) ! b)). v \<notin> set (leftN (blocks (afterS3 opts arr) ! w))} \<and>
         set (cleftN (blocks (afterS3 opts arr) ! b)) =
           {v \<in> set (leftN (blocks (afterS3 opts arr) ! b)).
              \<forall>w\<in>set (leftN (blocks (afterS3 opts arr) ! b)).
                \<not> matrix (afterS3 opts arr) !
                   (idx (blocks (afterS3 opts arr) ! w) * length arr + idx (blocks (afterS3 opts arr) ! v))} \<and>
         set (crightN (blocks (afterS3 opts arr) ! b)) =
           {v \<in> set (rightN (blocks (afterS3 opts arr) ! b)).
              \<forall>w\<in>set (rightN (blocks (afterS3 opts arr) ! b)). v \<notin> set (rightN (blocks (afterS3 opts arr) ! w))} \<and>
         set (cleftN (blocks (afterS3 opts arr) ! b)) \<subseteq> set (leftN (blocks (afterS3 opts arr) ! b)) \<and>
         set (crightN (blocks (afterS3 opts arr) ! b)) \<subseteq> set (rightN (blocks (afterS3 opts arr) ! b))"
proof -
  have ne: "arr \<noteq> []" using assms by auto
  let ?B2 = "blocks (afterS2 opts arr)" and ?B3 = "blocks (afterS3 opts arr)"
  have lb: "leftN (?B3 ! b) = leftN (?B2 ! b)" and rb: "rightN (?B3 ! b) = rightN (?B2 ! b)"
    by (rule afterS3_fields[OF ne assms])+
  have bl: "\<And>w. w \<in> set (leftN (?B2 ! b)) \<Longrightarrow> w < length arr"
    using afterS2_leftN_bound(1)[OF ne assms, of opts] by auto
  have br: "\<And>w. w \<in> set (rightN (?B2 ! b)) \<Longrightarrow> w < length arr"
    using afterS2_leftN_bound(2)[OF ne assms, of opts] by auto
  have lw: "\<And>w. w \<in> set (leftN (?B2 ! b)) \<Longrightarrow> leftN (?B3 ! w) = leftN (?B2 ! w)"
    using afterS3_fields(1)[OF ne bl] by simp
  have rw: "\<And>w. w \<in> set (rightN (?B2 ! b)) \<Longrightarrow> rightN (?B3 ! w) = rightN (?B2 ! w)"
    using afterS3_fields(2)[OF ne br] by simp
  have iw: "\<And>w. w \<in> set (leftN (?B2 ! b)) \<Longrightarrow> idx (?B3 ! w) = w"
    using afterS3_fields(4)[OF ne bl] by simp
  have 1: "set (cleftN (?B3 ! b)) =
      {v \<in> set (leftN (?B3 ! b)). \<forall>w\<in>set (leftN (?B3 ! b)). v \<notin> set (leftN (?B3 ! w))}"
    unfolding afterS3_cleftN[OF ne assms] lb using lw by (auto simp: list_ex_iff)
  have cell: "\<And>w v. w \<in> set (leftN (?B2 ! b)) \<Longrightarrow> v \<in> set (leftN (?B2 ! b)) \<Longrightarrow>
      matrix (afterS3 opts arr) ! (idx (?B3 ! w) * length arr + idx (?B3 ! v)) \<longleftrightarrow> v \<in> set (leftN (?B3 ! w))"
  proof -
    fix w v assume w: "w \<in> set (leftN (?B2 ! b))" and v: "v \<in> set (leftN (?B2 ! b))"
    show "matrix (afterS3 opts arr) ! (idx (?B3 ! w) * length arr + idx (?B3 ! v)) \<longleftrightarrow> v \<in> set (leftN (?B3 ! w))"
      unfolding afterS3_matrix iw[OF w] iw[OF v] lw[OF w]
      using afterS2_rel(1,3)[OF ne bl[OF w] bl[OF v], of opts] by simp
  qed
  have 2: "set (cleftN (?B3 ! b)) =
      {v \<in> set (leftN (?B3 ! b)). \<forall>w\<in>set (leftN (?B3 ! b)).
          \<not> matrix (afterS3 opts arr) ! (idx (?B3 ! w) * length arr + idx (?B3 ! v))}"
    unfolding 1 lb using cell by auto
  have 3: "set (crightN (?B3 ! b)) =
      {v \<in> set (rightN (?B3 ! b)). \<forall>w\<in>set (rightN (?B3 ! b)). v \<notin> set (rightN (?B3 ! w))}"
    unfolding afterS3_crightN[OF ne assms] rb using rw by (auto simp: list_ex_iff)
  show ?thesis using 1 2 3 by blast
qed

text \<open>C6 on four blocks: block 3 has \<open>leftN = [1, 2]\<close>, and 2 is in \<open>leftN\<close> of 1.\<close>

theorem s3_condensed_witness:
  "(3::nat) < length [(0, 60), (30, 100), (60, 200), (70, 150) :: Input] \<and>
   set (cleftN (blocks (afterS3 defaultOptions [(0, 60), (30, 100), (60, 200), (70, 150)]) ! 3)) \<subseteq>
     set (leftN (blocks (afterS3 defaultOptions [(0, 60), (30, 100), (60, 200), (70, 150)]) ! 3)) \<and>
   leftN (blocks (afterS3 defaultOptions [(0, 60), (30, 100), (60, 200), (70, 150)]) ! 3) = [1, 2] \<and>
   cleftN (blocks (afterS3 defaultOptions [(0, 60), (30, 100), (60, 200), (70, 150)]) ! 3) = [1]"
proof -
  have a: "(3::nat) < length [(0, 60), (30, 100), (60, 200), (70, 150) :: Input]" by simp
  have l: "leftN (blocks (afterS3 defaultOptions [(0, 60), (30, 100), (60, 200), (70, 150)]) ! 3) = [1, 2]"
    by code_simp
  have c: "cleftN (blocks (afterS3 defaultOptions [(0, 60), (30, 100), (60, 200), (70, 150)]) ! 3) = [1]"
    by code_simp
  show ?thesis using s3_condensed[OF a, of defaultOptions] a l c by blast
qed

subsection \<open>C7: the closure of the condensed edges\<close>

lemma reduction_closure:
  fixes r :: "nat \<Rightarrow> nat"
  assumes dec: "\<And>a v. (a, v) \<in> L \<Longrightarrow> r v < r a"
    and red: "\<And>a v. (a, v) \<in> L \<Longrightarrow> (a, v) \<in> C \<or> (\<exists>w. (a, w) \<in> L \<and> (w, v) \<in> L)"
  shows "(a, v) \<in> L \<Longrightarrow> (a, v) \<in> C\<^sup>+"
proof (induction "r a - r v" arbitrary: a v rule: less_induct)
  case less
  from red[OF less.prems] show ?case
  proof
    assume "(a, v) \<in> C"
    then show ?thesis by (rule r_into_trancl)
  next
    assume "\<exists>w. (a, w) \<in> L \<and> (w, v) \<in> L"
    then obtain w where w: "(a, w) \<in> L" "(w, v) \<in> L" by blast
    from dec[OF w(1)] dec[OF w(2)] have "r a - r w < r a - r v" "r w - r v < r a - r v" by simp_all
    from less.hyps[OF this(1) w(1)] less.hyps[OF this(2) w(2)]
    show ?thesis by (rule trancl_trans)
  qed
qed

lemma afterS1_depth_range:
  assumes ne: "arr \<noteq> []" and i: "i < length arr"
  shows "0 \<le> depth (blocks (afterS1 opts arr) ! i)"
    and "depth (blocks (afterS1 opts arr) ! i) \<le> snd (stageS1 opts (setupBlocks arr)) - 1"
proof -
  have r: "stageS1 opts (setupBlocks arr) = (afterS1 opts arr, snd (stageS1 opts (setupBlocks arr)))"
    by (simp add: afterS1_def)
  have "blocks (afterS1 opts arr) ! i \<in> set (blocks (afterS1 opts arr))"
    using i afterS1_facts(4)[OF ne, of opts] by simp
  with stageS1_depth_range[OF ne r]
  show "0 \<le> depth (blocks (afterS1 opts arr) ! i)"
    and "depth (blocks (afterS1 opts arr) ! i) \<le> snd (stageS1 opts (setupBlocks arr)) - 1"
    by blast+
qed

lemma leftRel_rank:
  assumes ok: "orderOK bs ord" and nn: "\<And>i. i < length bs \<Longrightarrow> 0 \<le> depth (bs ! i)"
  obtains r :: "nat \<Rightarrow> nat" where "\<And>a v. (a, v) \<in> leftRel d bs ord \<Longrightarrow> r v < r a"
proof -
  define n where "n = length ord"
  define pos where "pos x = (THE i. i < n \<and> ord ! i = x)" for x
  define r where "r x = nat (depth (bs ! x)) * (n + 1) + (n - pos x)" for x
  from ok have dist: "distinct ord" unfolding orderOK_def by blast
  have pos: "\<And>i. i < n \<Longrightarrow> pos (ord ! i) = i"
  proof -
    fix i assume i: "i < n"
    have "(THE k. k < n \<and> ord ! k = ord ! i) = i"
    proof (rule the_equality)
      show "i < n \<and> ord ! i = ord ! i" using i by simp
    next
      fix k assume "k < n \<and> ord ! k = ord ! i"
      then show "k = i" using dist i unfolding n_def by (auto simp: nth_eq_iff_index_eq)
    qed
    then show "pos (ord ! i) = i" unfolding pos_def .
  qed
  have "\<And>a v. (a, v) \<in> leftRel d bs ord \<Longrightarrow> r v < r a"
  proof -
    fix a v assume "(a, v) \<in> leftRel d bs ord"
    then obtain i k where ik: "i < k" "k < length ord"
      and o: "(a, v) = orient bs (ord ! i) (ord ! k)"
      unfolding leftRel_def by blast
    note m = orderOK_sorted_nth[OF ok ik]
    have pi: "pos (ord ! i) = i" and pk: "pos (ord ! k) = k" using pos ik unfolding n_def by simp_all
    have kn: "k < n" using ik unfolding n_def by simp
    show "r v < r a"
    proof (cases "depth (bs ! (ord ! i)) < depth (bs ! (ord ! k))")
      case True
      with o have e: "a = ord ! k" "v = ord ! i" by (simp_all add: orient_def)
      have "nat (depth (bs ! v)) + 1 \<le> nat (depth (bs ! a))"
        using True nn[OF m(3)] e by simp
      then have "(nat (depth (bs ! v)) + 1) * (n + 1) \<le> nat (depth (bs ! a)) * (n + 1)"
        by (rule mult_le_mono1)
      moreover have "r v < (nat (depth (bs ! v)) + 1) * (n + 1)" unfolding r_def by simp
      moreover have "nat (depth (bs ! a)) * (n + 1) \<le> r a" unfolding r_def by simp
      ultimately show ?thesis by linarith
    next
      case False
      with o have e: "a = ord ! i" "v = ord ! k" by (simp_all add: orient_def)
      have "nat (depth (bs ! v)) \<le> nat (depth (bs ! a))" using False e by simp
      then have "nat (depth (bs ! v)) * (n + 1) \<le> nat (depth (bs ! a)) * (n + 1)"
        by (rule mult_le_mono1)
      moreover have "n - pos v < n - pos a" using e pi pk ik(1) kn by simp
      ultimately show ?thesis unfolding r_def by linarith
    qed
  qed
  then show ?thesis by (rule that)
qed

lemma cleftRel_iff: "(b, v) \<in> cleftRel st \<longleftrightarrow> b < length (blocks st) \<and> v \<in> set (cleftN (blocks st ! b))"
  by (auto simp: cleftRel_def)

text \<open>
  C7, amended: after S3, for every block \<open>b\<close>, every member of \<open>leftN b\<close> is reachable from \<open>b\<close>
  by one or more \<open>cleftN\<close> links (for every input and all options). The converse is not
  claimed: a block reachable from \<open>b\<close> need not be in \<open>leftN b\<close>.
\<close>

theorem s3_leftN_reachable:
  assumes "b < length arr" and "v \<in> set (leftN (blocks (afterS3 opts arr) ! b))"
  shows "(b, v) \<in> (cleftRel (afterS3 opts arr))\<^sup>+"
proof -
  have ne: "arr \<noteq> []" using assms(1) by auto
  let ?bs = "blocks (afterS1 opts arr)" and ?ord = "blocksReordered (afterS1 opts arr)"
  let ?L = "leftRel (dfsTolerance opts) ?bs ?ord"
  let ?B2 = "blocks (afterS2 opts arr)" and ?B3 = "blocks (afterS3 opts arr)"
  have len: "length ?bs = length arr" by (rule afterS1_facts(4)[OF ne])
  have len2: "length ?B2 = length arr" by (rule afterS2_length[OF ne])
  from leftRel_rank[OF afterS1_order[OF ne], of opts "dfsTolerance opts"] afterS1_depth_range(1)[OF ne] len
  obtain r :: "nat \<Rightarrow> nat" where dec: "\<And>a v. (a, v) \<in> ?L \<Longrightarrow> r v < r a" by auto
  from afterS2_facts(1)[OF ne, of opts] have sub: "?L \<subseteq> {..<length arr} \<times> {..<length arr}"
    unfolding adjInv_def len2 by blast
  have red: "\<And>a v. (a, v) \<in> ?L \<Longrightarrow>
      (a, v) \<in> cleftRel (afterS3 opts arr) \<or> (\<exists>w. (a, w) \<in> ?L \<and> (w, v) \<in> ?L)"
  proof -
    fix a v assume av: "(a, v) \<in> ?L"
    with sub have a: "a < length arr" and v: "v < length arr" by auto
    have vl: "v \<in> set (leftN (?B2 ! a))" using afterS2_rel(1)[OF ne a v, of opts] av by simp
    show "(a, v) \<in> cleftRel (afterS3 opts arr) \<or> (\<exists>w. (a, w) \<in> ?L \<and> (w, v) \<in> ?L)"
    proof (cases "v \<in> set (cleftN (?B3 ! a))")
      case True
      then show ?thesis using a afterS3_length[OF ne, of opts] by (simp add: cleftRel_iff)
    next
      case False
      then obtain w where w: "w \<in> set (leftN (?B2 ! a))" "v \<in> set (leftN (?B2 ! w))"
        using vl unfolding afterS3_cleftN[OF ne a] by (auto simp: list_ex_iff)
      have wl: "w < length arr" using afterS2_leftN_bound(1)[OF ne a, of opts] w(1) by auto
      have "(a, w) \<in> ?L" using afterS2_rel(1)[OF ne a wl, of opts] w(1) by simp
      moreover have "(w, v) \<in> ?L" using afterS2_rel(1)[OF ne wl v, of opts] w(2) by simp
      ultimately show ?thesis by blast
    qed
  qed
  have "v \<in> set (leftN (?B2 ! b))" using assms(2) afterS3_fields(1)[OF ne assms(1)] by simp
  moreover from this have "v < length arr" using afterS2_leftN_bound(1)[OF ne assms(1), of opts] by auto
  ultimately have bv: "(b, v) \<in> ?L" using afterS2_rel(1)[OF ne assms(1), of v opts] by simp
  show ?thesis
  proof (rule reduction_closure[where r = r and L = "?L"])
    show "\<And>a v. (a, v) \<in> ?L \<Longrightarrow> r v < r a" by (rule dec)
    show "\<And>a v. (a, v) \<in> ?L \<Longrightarrow>
      (a, v) \<in> cleftRel (afterS3 opts arr) \<or> (\<exists>w. (a, w) \<in> ?L \<and> (w, v) \<in> ?L)" by (rule red)
    show "(b, v) \<in> ?L" by (rule bv)
  qed
qed

text \<open>
  Claim C7 also says that every block reachable from \<open>b\<close> along \<open>cleftN\<close> is in \<open>leftN b\<close>. The
  relation "conflicts and has lower depth" is not transitive, so this fails: for
  \<open>[0,60), [30,100), [60,200), [70,150)\<close> at the default options, block 3 reaches block 0
  through block 1, and blocks 3 and 0 do not overlap in time.
\<close>

theorem s3_closure_counterexample:
  "(3, 0) \<in> (cleftRel (afterS3 defaultOptions [(0, 60), (30, 100), (60, 200), (70, 150)]))\<^sup>+ \<and>
   0 \<notin> set (leftN (blocks (afterS3 defaultOptions [(0, 60), (30, 100), (60, 200), (70, 150)]) ! 3))"
proof -
  let ?st = "afterS3 defaultOptions [(0, 60), (30, 100), (60, 200), (70, 150)]"
  have a: "(3, 1) \<in> cleftRel ?st" by code_simp
  have b: "(1, 0) \<in> cleftRel ?st" by code_simp
  have c: "0 \<notin> set (leftN (blocks ?st ! 3))" by code_simp
  from a b have "(3, 0) \<in> (cleftRel ?st)\<^sup>+" by (rule trancl_into_trancl[OF r_into_trancl])
  with c show ?thesis by simp
qed

text \<open>The amended C7 on the same input: 2 is in \<open>leftN\<close> of 3, not in \<open>cleftN\<close> of 3, and reachable.\<close>

theorem s3_leftN_reachable_witness:
  "(3::nat) < length [(0, 60), (30, 100), (60, 200), (70, 150) :: Input] \<and>
   2 \<in> set (leftN (blocks (afterS3 defaultOptions [(0, 60), (30, 100), (60, 200), (70, 150)]) ! 3)) \<and>
   2 \<notin> set (cleftN (blocks (afterS3 defaultOptions [(0, 60), (30, 100), (60, 200), (70, 150)]) ! 3)) \<and>
   (3, 2) \<in> (cleftRel (afterS3 defaultOptions [(0, 60), (30, 100), (60, 200), (70, 150)]))\<^sup>+"
proof -
  have a: "(3::nat) < length [(0, 60), (30, 100), (60, 200), (70, 150) :: Input]" by simp
  have l: "2 \<in> set (leftN (blocks (afterS3 defaultOptions [(0, 60), (30, 100), (60, 200), (70, 150)]) ! 3))"
    by code_simp
  have c: "2 \<notin> set (cleftN (blocks (afterS3 defaultOptions [(0, 60), (30, 100), (60, 200), (70, 150)]) ! 3))"
    by code_simp
  show ?thesis using s3_leftN_reachable[OF a l] a l c by blast
qed

subsection \<open>The depth-first search visits what is reachable and not yet visited\<close>

lemma dfsInvE:
  assumes "dfsInv bs0 s d stk bs"
  obtains "dfsFrame bs0 bs" and "visitedSet bs0 \<subseteq> visitedSet bs"
    and "visitedSet bs \<subseteq> visitedSet bs0 \<union> (cleftEdges bs0)\<^sup>* `` {s}"
    and "set stk \<subseteq> (cleftEdges bs0)\<^sup>* `` {s}" and "set stk \<subseteq> {..<length bs0}"
    and "set stk \<inter> visitedSet bs0 = {}"
    and "\<forall>x<length bs0. pathDepth (bs ! x) =
         (if x \<in> visitedSet bs - visitedSet bs0 then d else pathDepth (bs0 ! x))"
    and "\<forall>x\<in>visitedSet bs - visitedSet bs0. \<forall>y. (x, y) \<in> cleftEdges bs0 \<longrightarrow> y \<in> visitedSet bs \<or> y \<in> set stk"
    and "s \<in> visitedSet bs \<or> s \<in> set stk"
  using assms unfolding dfsInv_def by (elim conjE) (rule that; assumption)

lemma dfsFrame_refl: "dfsFrame bs bs"
  by (simp add: dfsFrame_def)

lemma dfsFrame_trans: "dfsFrame a b \<Longrightarrow> dfsFrame b c \<Longrightarrow> dfsFrame a c"
  by (simp add: dfsFrame_def)

lemma dfsFrame_fields:
  assumes "dfsFrame bs0 bs" and "i < length bs0"
  shows "cleftN (bs ! i) = cleftN (bs0 ! i)" and "depth (bs ! i) = depth (bs0 ! i)"
    and "crightN (bs ! i) = crightN (bs0 ! i)" and "leftN (bs ! i) = leftN (bs0 ! i)"
    and "rightN (bs ! i) = rightN (bs0 ! i)" and "idx (bs ! i) = idx (bs0 ! i)"
    and "startMin (bs ! i) = startMin (bs0 ! i)" and "endMin (bs ! i) = endMin (bs0 ! i)"
    and "isFixed (bs ! i) = isFixed (bs0 ! i)"
  using assms by (simp_all add: dfsFrame_def)

lemma dfsFrame_length: "dfsFrame bs0 bs \<Longrightarrow> length bs = length bs0"
  by (simp add: dfsFrame_def)

lemma dfsFrame_visit:
  assumes "dfsFrame bs0 bs"
  shows "dfsFrame bs0 (bs[start := (bs ! start)\<lparr>visited := True, pathDepth := d\<rparr>])"
proof (cases "start < length bs")
  case True
  then show ?thesis using assms unfolding dfsFrame_def by (simp add: nth_list_update)
next
  case False
  then show ?thesis using assms by (simp add: list_update_beyond)
qed

lemma cleftEdges_frame: "dfsFrame bs0 bs \<Longrightarrow> cleftEdges bs = cleftEdges bs0"
  by (auto simp: cleftEdges_def dfsFrame_def)

lemma visitedSet_visit:
  assumes "start < length bs"
  shows "visitedSet (bs[start := (bs ! start)\<lparr>visited := True, pathDepth := d\<rparr>]) = insert start (visitedSet bs)"
  using assms by (auto simp: visitedSet_def nth_list_update)

lemma dfsInv_step:
  assumes inv: "dfsInv bs0 s d (start # rest) bs"
    and closed: "\<forall>x<length bs0. set (cleftN (bs0 ! x)) \<subseteq> {..<length bs0}"
  shows "dfsInv bs0 s d
      (rev (filter (\<lambda>adj. \<not> visited (bs[start := (bs ! start)\<lparr>visited := True, pathDepth := d\<rparr>] ! adj))
          (cleftN (bs[start := (bs ! start)\<lparr>visited := True, pathDepth := d\<rparr>] ! start))) @ rest)
      (bs[start := (bs ! start)\<lparr>visited := True, pathDepth := d\<rparr>])"
proof -
  let ?bs' = "bs[start := (bs ! start)\<lparr>visited := True, pathDepth := d\<rparr>]"
  let ?push = "filter (\<lambda>adj. \<not> visited (?bs' ! adj)) (cleftN (?bs' ! start))"
  let ?R = "cleftEdges bs0" and ?W = "visitedSet bs0" and ?V = "visitedSet bs" and ?V' = "visitedSet ?bs'"
  have fr: "dfsFrame bs0 bs" and v0: "?W \<subseteq> ?V" and v1: "?V \<subseteq> ?W \<union> ?R\<^sup>* `` {s}"
    and st1: "set (start # rest) \<subseteq> ?R\<^sup>* `` {s}" and st2: "set (start # rest) \<subseteq> {..<length bs0}"
    and st3: "set (start # rest) \<inter> ?W = {}"
    and pd: "\<forall>x<length bs0. pathDepth (bs ! x) = (if x \<in> ?V - ?W then d else pathDepth (bs0 ! x))"
    and cl: "\<forall>x\<in>?V - ?W. \<forall>y. (x, y) \<in> ?R \<longrightarrow> y \<in> ?V \<or> y \<in> set (start # rest)"
    and sv: "s \<in> ?V \<or> s \<in> set (start # rest)"
    by - (rule dfsInvE[OF inv], assumption)+
  have len: "length bs = length bs0" using fr by (simp add: dfsFrame_def)
  have sl: "start < length bs" using st2 len by simp
  have V': "?V' = insert start ?V" by (rule visitedSet_visit[OF sl])
  have fr': "dfsFrame bs0 ?bs'" by (rule dfsFrame_visit[OF fr])
  have cn: "cleftN (?bs' ! start) = cleftN (bs0 ! start)"
    using dfsFrame_fields(1)[OF fr', of start] sl len by simp
  have sR: "(s, start) \<in> ?R\<^sup>*" using st1 by auto
  have s0: "start \<notin> ?W" using st3 by auto
  have edge: "\<And>y. y \<in> set (cleftN (bs0 ! start)) \<Longrightarrow> (start, y) \<in> ?R"
    using sl len by (simp add: cleftEdges_def)
  have pushV: "\<And>y. y \<in> set ?push \<Longrightarrow> y \<notin> ?V'"
  proof -
    fix y assume "y \<in> set ?push"
    then have "\<not> visited (?bs' ! y)" by simp
    then show "y \<notin> ?V'" by (simp add: visitedSet_def)
  qed
  have pushC: "\<And>y. y \<in> set (cleftN (bs0 ! start)) \<Longrightarrow> y \<in> ?V' \<or> y \<in> set ?push"
  proof -
    fix y assume y: "y \<in> set (cleftN (bs0 ! start))"
    then have "y < length bs0" using closed sl len by auto
    then show "y \<in> ?V' \<or> y \<in> set ?push" using y cn len by (auto simp: visitedSet_def)
  qed
  have 1: "?W \<subseteq> ?V'" using v0 V' by auto
  have 2: "?V' \<subseteq> ?W \<union> ?R\<^sup>* `` {s}" using v1 V' sR by auto
  have 3: "set (rev ?push @ rest) \<subseteq> ?R\<^sup>* `` {s}"
  proof
    fix y assume "y \<in> set (rev ?push @ rest)"
    then consider "y \<in> set ?push" | "y \<in> set rest" by auto
    then show "y \<in> ?R\<^sup>* `` {s}"
    proof cases
      case 1
      then have "y \<in> set (cleftN (bs0 ! start))" using cn by simp
      from edge[OF this] sR have "(s, y) \<in> ?R\<^sup>*" by (rule rtrancl_into_rtrancl[rotated])
      then show ?thesis by simp
    next
      case 2
      then show ?thesis using st1 by auto
    qed
  qed
  have 4: "set (rev ?push @ rest) \<subseteq> {..<length bs0}"
  proof
    fix y assume "y \<in> set (rev ?push @ rest)"
    then consider "y \<in> set ?push" | "y \<in> set rest" by auto
    then show "y \<in> {..<length bs0}"
    proof cases
      case 1
      then have "y \<in> set (cleftN (bs0 ! start))" using cn by simp
      then show ?thesis using closed sl len by auto
    next
      case 2
      then show ?thesis using st2 by auto
    qed
  qed
  have 5: "set (rev ?push @ rest) \<inter> ?W = {}"
  proof -
    have "\<And>y. y \<in> set ?push \<Longrightarrow> y \<notin> ?W" using pushV 1 by blast
    then show ?thesis using st3 by auto
  qed
  have 6: "\<forall>x<length bs0. pathDepth (?bs' ! x) = (if x \<in> ?V' - ?W then d else pathDepth (bs0 ! x))"
  proof (intro allI impI)
    fix x assume x: "x < length bs0"
    show "pathDepth (?bs' ! x) = (if x \<in> ?V' - ?W then d else pathDepth (bs0 ! x))"
    proof (cases "x = start")
      case True
      then show ?thesis using sl V' s0 by simp
    next
      case False
      then show ?thesis using pd x V' by simp
    qed
  qed
  have 7: "\<forall>x\<in>?V' - ?W. \<forall>y. (x, y) \<in> ?R \<longrightarrow> y \<in> ?V' \<or> y \<in> set (rev ?push @ rest)"
  proof (intro ballI allI impI)
    fix x y assume x: "x \<in> ?V' - ?W" and xy: "(x, y) \<in> ?R"
    show "y \<in> ?V' \<or> y \<in> set (rev ?push @ rest)"
    proof (cases "x = start")
      case True
      then have "y \<in> set (cleftN (bs0 ! start))" using xy by (simp add: cleftEdges_def)
      from pushC[OF this] show ?thesis by auto
    next
      case False
      then have "x \<in> ?V - ?W" using x V' by auto
      with cl xy have "y \<in> ?V \<or> y \<in> set (start # rest)" by blast
      then show ?thesis using V' by auto
    qed
  qed
  have 8: "s \<in> ?V' \<or> s \<in> set (rev ?push @ rest)" using sv V' by auto
  show ?thesis unfolding dfsInv_def by (intro conjI fr' 1 2 3 4 5 6 7 8)
qed

lemma dfsInv_done:
  assumes inv: "dfsInv bs0 s d [] bs"
    and c0: "\<forall>x\<in>visitedSet bs0. \<forall>y. (x, y) \<in> cleftEdges bs0 \<longrightarrow> y \<in> visitedSet bs0"
  shows "dfsPost bs0 s d bs"
proof -
  let ?R = "cleftEdges bs0" and ?W = "visitedSet bs0" and ?V = "visitedSet bs"
  have fr: "dfsFrame bs0 bs" and v0: "?W \<subseteq> ?V" and v1: "?V \<subseteq> ?W \<union> ?R\<^sup>* `` {s}"
    and pd: "\<forall>x<length bs0. pathDepth (bs ! x) = (if x \<in> ?V - ?W then d else pathDepth (bs0 ! x))"
    and cl': "\<forall>x\<in>?V - ?W. \<forall>y. (x, y) \<in> ?R \<longrightarrow> y \<in> ?V \<or> y \<in> set []"
    and sv': "s \<in> ?V \<or> s \<in> set []"
    by - (rule dfsInvE[OF inv], assumption)+
  have cl: "\<forall>x\<in>?V - ?W. \<forall>y. (x, y) \<in> ?R \<longrightarrow> y \<in> ?V" using cl' by simp
  have sv: "s \<in> ?V" using sv' by simp
  have closed: "\<And>x y. x \<in> ?V \<Longrightarrow> (x, y) \<in> ?R \<Longrightarrow> y \<in> ?V"
    using cl c0 v0 by blast
  have "\<And>y. (s, y) \<in> ?R\<^sup>* \<Longrightarrow> y \<in> ?V"
  proof -
    fix y assume "(s, y) \<in> ?R\<^sup>*"
    then show "y \<in> ?V" by (induction rule: rtrancl_induct) (use sv closed in auto)
  qed
  then have "?V = ?W \<union> ?R\<^sup>* `` {s}" using v0 v1 by auto
  then show ?thesis unfolding dfsPost_def by (intro conjI fr pd)
qed

lemma dfsLoop_post:
  assumes "dfsInv bs0 s d stk bs"
    and "\<forall>x<length bs0. set (cleftN (bs0 ! x)) \<subseteq> {..<length bs0}"
    and "\<forall>x\<in>visitedSet bs0. \<forall>y. (x, y) \<in> cleftEdges bs0 \<longrightarrow> y \<in> visitedSet bs0"
  shows "dfsPost bs0 s d (dfsLoop d stk bs)"
  using assms
proof (induction d stk bs rule: dfsLoop.induct)
  case (1 maxDepth bs)
  then show ?case using dfsInv_done by simp
next
  case (2 maxDepth start rest bs)
  have "set (start # rest) \<subseteq> {..<length bs0}" and "dfsFrame bs0 bs"
    by - (rule dfsInvE[OF "2.prems"(1)], assumption)+
  then have sl: "start < length bs" by (simp add: dfsFrame_def)
  let ?bs' = "bs[start := (bs ! start)\<lparr>visited := True, pathDepth := maxDepth\<rparr>]"
  have "dfsPost bs0 s maxDepth (dfsLoop maxDepth
      (rev (filter (\<lambda>adj. \<not> visited (?bs' ! adj)) (cleftN (?bs' ! start))) @ rest) ?bs')"
    by (rule "2.IH"[OF sl refl dfsInv_step[OF "2.prems"(1,2)] "2.prems"(2,3)])
  then show ?case using sl by (simp add: Let_def)
qed

lemma dfs_from:
  assumes s: "s < length bs0" and ns: "\<not> visited (bs0 ! s)"
    and closed: "\<forall>x<length bs0. set (cleftN (bs0 ! x)) \<subseteq> {..<length bs0}"
    and c0: "\<forall>x\<in>visitedSet bs0. \<forall>y. (x, y) \<in> cleftEdges bs0 \<longrightarrow> y \<in> visitedSet bs0"
  shows "dfsPost bs0 s d (dfsLoop d [s] bs0)"
proof (rule dfsLoop_post[OF _ closed c0])
  show "dfsInv bs0 s d [s] bs0"
    unfolding dfsInv_def using s ns by (auto simp: dfsFrame_refl visitedSet_def)
qed

subsection \<open>The loop of \<open>dfsWidthExpansion\<close>\<close>

lemma seedInvE:
  assumes "seedInv bs0 pre bs"
  obtains "dfsFrame bs0 bs" and "visitedSet bs = (cleftEdges bs0)\<^sup>* `` set pre"
    and "\<forall>b\<in>visitedSet bs. \<exists>k<length pre. (pre ! k, b) \<in> (cleftEdges bs0)\<^sup>* \<and>
         (\<forall>k'<k. (pre ! k', b) \<notin> (cleftEdges bs0)\<^sup>*) \<and>
         pathDepth (bs ! b) = depth (bs0 ! (pre ! k)) + 1"
  using assms unfolding seedInv_def by (elim conjE) (rule that; assumption)

lemma seedInv_step:
  assumes inv: "seedInv bs0 pre bs" and node: "node < length bs0"
    and closed: "\<forall>x<length bs0. set (cleftN (bs0 ! x)) \<subseteq> {..<length bs0}"
  shows "seedInv bs0 (pre @ [node]) (seedStep node bs)"
proof -
  let ?R = "cleftEdges bs0"
  have fr: "dfsFrame bs0 bs" and V: "visitedSet bs = ?R\<^sup>* `` set pre"
    and ch: "\<forall>b\<in>visitedSet bs. \<exists>k<length pre. (pre ! k, b) \<in> ?R\<^sup>* \<and>
         (\<forall>k'<k. (pre ! k', b) \<notin> ?R\<^sup>*) \<and> pathDepth (bs ! b) = depth (bs0 ! (pre ! k)) + 1"
    by - (rule seedInvE[OF inv], assumption)+
  have len: "length bs = length bs0" by (rule dfsFrame_length[OF fr])
  have Rbs: "cleftEdges bs = ?R" by (rule cleftEdges_frame[OF fr])
  have old: "\<And>b. b \<in> visitedSet bs \<Longrightarrow> \<exists>k<length (pre @ [node]). ((pre @ [node]) ! k, b) \<in> ?R\<^sup>* \<and>
         (\<forall>k'<k. ((pre @ [node]) ! k', b) \<notin> ?R\<^sup>*) \<and> pathDepth (bs ! b) = depth (bs0 ! ((pre @ [node]) ! k)) + 1"
  proof -
    fix b assume "b \<in> visitedSet bs"
    with ch obtain k where k: "k < length pre" "(pre ! k, b) \<in> ?R\<^sup>*"
      "\<forall>k'<k. (pre ! k', b) \<notin> ?R\<^sup>*" "pathDepth (bs ! b) = depth (bs0 ! (pre ! k)) + 1" by blast
    have "k < length (pre @ [node]) \<and> ((pre @ [node]) ! k, b) \<in> ?R\<^sup>* \<and>
         (\<forall>k'<k. ((pre @ [node]) ! k', b) \<notin> ?R\<^sup>*) \<and> pathDepth (bs ! b) = depth (bs0 ! ((pre @ [node]) ! k)) + 1"
      using k by (simp add: nth_append)
    then show "\<exists>k<length (pre @ [node]). ((pre @ [node]) ! k, b) \<in> ?R\<^sup>* \<and>
         (\<forall>k'<k. ((pre @ [node]) ! k', b) \<notin> ?R\<^sup>*) \<and> pathDepth (bs ! b) = depth (bs0 ! ((pre @ [node]) ! k)) + 1"
      by blast
  qed
  show ?thesis
  proof (cases "visited (bs ! node)")
    case True
    then have e: "seedStep node bs = bs" by (simp add: seedStep_def)
    have "node \<in> visitedSet bs" using True node len by (simp add: visitedSet_def)
    then have "node \<in> ?R\<^sup>* `` set pre" using V by simp
    then have "?R\<^sup>* `` {node} \<subseteq> ?R\<^sup>* `` set pre" by (auto intro: rtrancl_trans)
    then have V': "visitedSet bs = ?R\<^sup>* `` set (pre @ [node])" using V by auto
    show ?thesis unfolding e seedInv_def using fr V' old by blast
  next
    case False
    let ?d = "depth (bs ! node) + 1"
    let ?bs' = "dfsLoop ?d [node] bs"
    have e: "seedStep node bs = ?bs'" using False by (simp add: seedStep_def)
    have cl: "\<forall>x<length bs. set (cleftN (bs ! x)) \<subseteq> {..<length bs}"
      using closed dfsFrame_fields(1)[OF fr] len by simp
    have c0: "\<forall>x\<in>visitedSet bs. \<forall>y. (x, y) \<in> cleftEdges bs \<longrightarrow> y \<in> visitedSet bs"
      unfolding Rbs V by (auto intro: rtrancl_into_rtrancl)
    have nl: "node < length bs" using node len by simp
    have post: "dfsPost bs node ?d ?bs'" by (rule dfs_from[OF nl False cl c0])
    then have fr1: "dfsFrame bs ?bs'" and V1: "visitedSet ?bs' = visitedSet bs \<union> ?R\<^sup>* `` {node}"
      and pd: "\<forall>x<length bs. pathDepth (?bs' ! x) =
         (if x \<in> visitedSet ?bs' - visitedSet bs then ?d else pathDepth (bs ! x))"
      unfolding dfsPost_def Rbs by - (elim conjE, assumption)+
    have fr': "dfsFrame bs0 ?bs'" by (rule dfsFrame_trans[OF fr fr1])
    have V': "visitedSet ?bs' = ?R\<^sup>* `` set (pre @ [node])" using V1 V by auto
    have dn: "depth (bs ! node) = depth (bs0 ! node)" by (rule dfsFrame_fields(2)[OF fr node])
    have ch': "\<forall>b\<in>visitedSet ?bs'. \<exists>k<length (pre @ [node]). ((pre @ [node]) ! k, b) \<in> ?R\<^sup>* \<and>
         (\<forall>k'<k. ((pre @ [node]) ! k', b) \<notin> ?R\<^sup>*) \<and>
         pathDepth (?bs' ! b) = depth (bs0 ! ((pre @ [node]) ! k)) + 1"
    proof
      fix b assume b: "b \<in> visitedSet ?bs'"
      then have bl: "b < length bs" using dfsFrame_length[OF fr1] by (simp add: visitedSet_def)
      show "\<exists>k<length (pre @ [node]). ((pre @ [node]) ! k, b) \<in> ?R\<^sup>* \<and>
         (\<forall>k'<k. ((pre @ [node]) ! k', b) \<notin> ?R\<^sup>*) \<and>
         pathDepth (?bs' ! b) = depth (bs0 ! ((pre @ [node]) ! k)) + 1"
      proof (cases "b \<in> visitedSet bs")
        case True
        then have "pathDepth (?bs' ! b) = pathDepth (bs ! b)" using pd bl by simp
        with old[OF True] show ?thesis by simp
      next
        case False
        then have p: "pathDepth (?bs' ! b) = ?d" using pd bl b by simp
        have r: "(node, b) \<in> ?R\<^sup>*" using b False V1 by auto
        have n: "\<forall>k'<length pre. (pre ! k', b) \<notin> ?R\<^sup>*"
        proof (intro allI impI notI)
          fix k' assume "k' < length pre" "(pre ! k', b) \<in> ?R\<^sup>*"
          then have "b \<in> ?R\<^sup>* `` set pre" by (meson Image_iff nth_mem)
          with False V show False by simp
        qed
        have "length pre < length (pre @ [node]) \<and> ((pre @ [node]) ! length pre, b) \<in> ?R\<^sup>* \<and>
          (\<forall>k'<length pre. ((pre @ [node]) ! k', b) \<notin> ?R\<^sup>*) \<and>
          pathDepth (?bs' ! b) = depth (bs0 ! ((pre @ [node]) ! length pre)) + 1"
          using r n p dn by (simp add: nth_append)
        then show ?thesis by blast
      qed
    qed
    show ?thesis unfolding e seedInv_def by (intro conjI fr' V' ch')
  qed
qed

lemma seedInv_fold:
  assumes "seedInv bs0 pre bs" and "set ord \<subseteq> {..<length bs0}"
    and "\<forall>x<length bs0. set (cleftN (bs0 ! x)) \<subseteq> {..<length bs0}"
  shows "seedInv bs0 (pre @ ord) (fold seedStep ord bs)"
  using assms
proof (induction ord arbitrary: pre bs)
  case Nil
  then show ?case by simp
next
  case (Cons node ord)
  have n: "node < length bs0" using Cons.prems(2) by simp
  have "seedInv bs0 ((pre @ [node]) @ ord) (fold seedStep ord (seedStep node bs))"
    using Cons.prems(2) by (intro Cons.IH[OF seedInv_step[OF Cons.prems(1) n Cons.prems(3)] _ Cons.prems(3)]) simp
  then show ?case by simp
qed

lemma seedInv_init:
  assumes "\<forall>i<length bs0. \<not> visited (bs0 ! i)"
  shows "seedInv bs0 [] bs0"
  using assms unfolding seedInv_def by (simp add: dfsFrame_refl visitedSet_def)

subsection \<open>The state after S4\<close>

lemma cleftRel_edges: "cleftRel st = cleftEdges (blocks st)"
  by (auto simp: cleftRel_def cleftEdges_def)

lemma afterS3_closed:
  assumes ne: "arr \<noteq> []" and b: "b < length arr"
  shows "set (cleftN (blocks (afterS3 opts arr) ! b)) \<subseteq> {..<length arr}"
proof -
  have "set (cleftN (blocks (afterS3 opts arr) ! b)) \<subseteq> set (leftN (blocks (afterS2 opts arr) ! b))"
    unfolding afterS3_cleftN[OF ne b] by auto
  then show ?thesis using afterS2_leftN_bound(1)[OF ne b, of opts] by blast
qed

lemma afterS3_order:
  assumes ne: "arr \<noteq> []"
  shows "set (blocksReordered (afterS3 opts arr)) = {..<length arr}"
    and "distinct (blocksReordered (afterS3 opts arr))"
proof -
  have o: "blocksReordered (afterS3 opts arr) = blocksReordered (afterS1 opts arr)"
    using afterS3_reordered[of opts arr] afterS2_facts(3)[OF ne, of opts] by simp
  from afterS1_order[OF ne, of opts] afterS1_facts(4)[OF ne, of opts]
  show "set (blocksReordered (afterS3 opts arr)) = {..<length arr}"
    and "distinct (blocksReordered (afterS3 opts arr))"
    unfolding o orderOK_def by simp_all
qed

lemma dfsWidthExpansion_unfold:
  "dfsWidthExpansion st = st\<lparr>blocksReordered := seedOrder st,
     blocks := map (\<lambda>block. block\<lparr>left := real_of_int (depth block) / real_of_int (pathDepth block),
                                    width := 1 / real_of_int (pathDepth block)\<rparr>)
                (fold seedStep (seedOrder st) (blocks st))\<rparr>"
  by (simp add: dfsWidthExpansion_def seedOrder_def Let_def)

lemma seedOrder_sorted:
  "sorted_wrt (\<lambda>p q. depth (blocks st ! q) \<le> depth (blocks st ! p)) (seedOrder st)"
proof -
  have "sorted_wrt (\<lambda>p q. - depth (blocks st ! p) \<le> - depth (blocks st ! q)) (seedOrder st)"
    unfolding seedOrder_def by (rule sorted_sort_by) auto
  then show ?thesis by simp
qed

lemma seedOrder_set: "set (seedOrder st) = set (blocksReordered st)"
  by (simp add: seedOrder_def set_sort_by)

lemma seedOrder_distinct: "distinct (seedOrder st) = distinct (blocksReordered st)"
  by (simp add: seedOrder_def distinct_sort_by)

lemma afterS3_seedInv:
  assumes ne: "arr \<noteq> []"
  shows "seedInv (blocks (afterS3 opts arr)) (seedOrder (afterS3 opts arr))
           (fold seedStep (seedOrder (afterS3 opts arr)) (blocks (afterS3 opts arr)))"
proof -
  let ?st = "afterS3 opts arr"
  have len: "length (blocks ?st) = length arr" by (rule afterS3_length[OF ne])
  have i: "seedInv (blocks ?st) [] (blocks ?st)"
    by (rule seedInv_init) (use afterS3_fields(5)[OF ne] len in simp)
  have s: "set (seedOrder ?st) \<subseteq> {..<length (blocks ?st)}"
    using afterS3_order(1)[OF ne, of opts] len by (simp add: seedOrder_set)
  have c: "\<forall>x<length (blocks ?st). set (cleftN (blocks ?st ! x)) \<subseteq> {..<length (blocks ?st)}"
    using afterS3_closed[OF ne] len by simp
  from seedInv_fold[OF i s c] show ?thesis by simp
qed

lemma seedInvD:
  assumes "seedInv bs0 pre bs"
  shows "dfsFrame bs0 bs" and "visitedSet bs = (cleftEdges bs0)\<^sup>* `` set pre"
    and "b \<in> visitedSet bs \<Longrightarrow> \<exists>k<length pre. (pre ! k, b) \<in> (cleftEdges bs0)\<^sup>* \<and>
         (\<forall>k'<k. (pre ! k', b) \<notin> (cleftEdges bs0)\<^sup>*) \<and>
         pathDepth (bs ! b) = depth (bs0 ! (pre ! k)) + 1"
proof -
  show "dfsFrame bs0 bs" by (rule seedInvE[OF assms])
  show "visitedSet bs = (cleftEdges bs0)\<^sup>* `` set pre" by (rule seedInvE[OF assms])
  assume b: "b \<in> visitedSet bs"
  have "\<forall>b\<in>visitedSet bs. \<exists>k<length pre. (pre ! k, b) \<in> (cleftEdges bs0)\<^sup>* \<and>
         (\<forall>k'<k. (pre ! k', b) \<notin> (cleftEdges bs0)\<^sup>*) \<and>
         pathDepth (bs ! b) = depth (bs0 ! (pre ! k)) + 1"
    by (rule seedInvE[OF assms])
  then show "\<exists>k<length pre. (pre ! k, b) \<in> (cleftEdges bs0)\<^sup>* \<and>
         (\<forall>k'<k. (pre ! k', b) \<notin> (cleftEdges bs0)\<^sup>*) \<and>
         pathDepth (bs ! b) = depth (bs0 ! (pre ! k)) + 1"
    using b by (rule bspec)
qed

lemma afterS4_unfold:
  "afterS4 opts arr = (afterS3 opts arr)\<lparr>blocksReordered := seedOrder (afterS3 opts arr),
     blocks := map (\<lambda>node. node\<lparr>visited := False\<rparr>)
       (map (\<lambda>block. block\<lparr>left := real_of_int (depth block) / real_of_int (pathDepth block),
                                    width := 1 / real_of_int (pathDepth block)\<rparr>)
                (fold seedStep (seedOrder (afterS3 opts arr)) (blocks (afterS3 opts arr))))\<rparr>"
  by (simp add: afterS4_def clearVisited_def dfsWidthExpansion_unfold)

lemma afterS4_block:
  assumes ne: "arr \<noteq> []" and b: "b < length arr"
  shows "blocks (afterS4 opts arr) ! b =
     (fold seedStep (seedOrder (afterS3 opts arr)) (blocks (afterS3 opts arr)) ! b)
       \<lparr>left := real_of_int (depth (fold seedStep (seedOrder (afterS3 opts arr)) (blocks (afterS3 opts arr)) ! b))
              / real_of_int (pathDepth (fold seedStep (seedOrder (afterS3 opts arr)) (blocks (afterS3 opts arr)) ! b)),
        width := 1 / real_of_int (pathDepth (fold seedStep (seedOrder (afterS3 opts arr)) (blocks (afterS3 opts arr)) ! b)),
        visited := False\<rparr>"
proof -
  have "length (fold seedStep (seedOrder (afterS3 opts arr)) (blocks (afterS3 opts arr))) = length arr"
    using seedInvD(1)[OF afterS3_seedInv[OF ne, of opts]] afterS3_length[OF ne, of opts]
    by (simp add: dfsFrame_length)
  then show ?thesis using b by (simp add: afterS4_unfold)
qed

lemma afterS4_length:
  assumes ne: "arr \<noteq> []"
  shows "length (blocks (afterS4 opts arr)) = length arr"
  using seedInvD(1)[OF afterS3_seedInv[OF ne, of opts]] afterS3_length[OF ne, of opts]
  by (simp add: afterS4_unfold dfsFrame_length)

lemma afterS4_order: "blocksReordered (afterS4 opts arr) = seedOrder (afterS3 opts arr)"
  by (simp add: afterS4_unfold)

lemma afterS4_fields:
  assumes ne: "arr \<noteq> []" and b: "b < length arr"
  shows "depth (blocks (afterS4 opts arr) ! b) = depth (blocks (afterS3 opts arr) ! b)"
    and "cleftN (blocks (afterS4 opts arr) ! b) = cleftN (blocks (afterS3 opts arr) ! b)"
    and "crightN (blocks (afterS4 opts arr) ! b) = crightN (blocks (afterS3 opts arr) ! b)"
    and "leftN (blocks (afterS4 opts arr) ! b) = leftN (blocks (afterS3 opts arr) ! b)"
    and "rightN (blocks (afterS4 opts arr) ! b) = rightN (blocks (afterS3 opts arr) ! b)"
    and "startMin (blocks (afterS4 opts arr) ! b) = startMin (blocks (afterS3 opts arr) ! b)"
    and "endMin (blocks (afterS4 opts arr) ! b) = endMin (blocks (afterS3 opts arr) ! b)"
    and "isFixed (blocks (afterS4 opts arr) ! b) = isFixed (blocks (afterS3 opts arr) ! b)"
    and "idx (blocks (afterS4 opts arr) ! b) = idx (blocks (afterS3 opts arr) ! b)"
    and "pathDepth (blocks (afterS4 opts arr) ! b) =
         pathDepth (fold seedStep (seedOrder (afterS3 opts arr)) (blocks (afterS3 opts arr)) ! b)"
    and "visited (blocks (afterS4 opts arr) ! b) = False"
    and "left (blocks (afterS4 opts arr) ! b) = real_of_int (depth (blocks (afterS4 opts arr) ! b))
            / real_of_int (pathDepth (blocks (afterS4 opts arr) ! b))"
    and "width (blocks (afterS4 opts arr) ! b) = 1 / real_of_int (pathDepth (blocks (afterS4 opts arr) ! b))"
proof -
  have f: "dfsFrame (blocks (afterS3 opts arr))
     (fold seedStep (seedOrder (afterS3 opts arr)) (blocks (afterS3 opts arr)))"
    by (rule seedInvD(1)[OF afterS3_seedInv[OF ne]])
  have b3: "b < length (blocks (afterS3 opts arr))" using b afterS3_length[OF ne, of opts] by simp
  note ff = dfsFrame_fields[OF f b3]
  show "depth (blocks (afterS4 opts arr) ! b) = depth (blocks (afterS3 opts arr) ! b)"
    and "cleftN (blocks (afterS4 opts arr) ! b) = cleftN (blocks (afterS3 opts arr) ! b)"
    and "crightN (blocks (afterS4 opts arr) ! b) = crightN (blocks (afterS3 opts arr) ! b)"
    and "leftN (blocks (afterS4 opts arr) ! b) = leftN (blocks (afterS3 opts arr) ! b)"
    and "rightN (blocks (afterS4 opts arr) ! b) = rightN (blocks (afterS3 opts arr) ! b)"
    and "startMin (blocks (afterS4 opts arr) ! b) = startMin (blocks (afterS3 opts arr) ! b)"
    and "endMin (blocks (afterS4 opts arr) ! b) = endMin (blocks (afterS3 opts arr) ! b)"
    and "isFixed (blocks (afterS4 opts arr) ! b) = isFixed (blocks (afterS3 opts arr) ! b)"
    and "idx (blocks (afterS4 opts arr) ! b) = idx (blocks (afterS3 opts arr) ! b)"
    and "pathDepth (blocks (afterS4 opts arr) ! b) =
         pathDepth (fold seedStep (seedOrder (afterS3 opts arr)) (blocks (afterS3 opts arr)) ! b)"
    and "visited (blocks (afterS4 opts arr) ! b) = False"
    and "left (blocks (afterS4 opts arr) ! b) = real_of_int (depth (blocks (afterS4 opts arr) ! b))
            / real_of_int (pathDepth (blocks (afterS4 opts arr) ! b))"
    and "width (blocks (afterS4 opts arr) ! b) = 1 / real_of_int (pathDepth (blocks (afterS4 opts arr) ! b))"
    unfolding afterS4_block[OF ne b] by (simp_all add: ff)
qed

lemma afterS4_cleftRel:
  assumes ne: "arr \<noteq> []"
  shows "cleftRel (afterS4 opts arr) = cleftEdges (blocks (afterS3 opts arr))"
  unfolding cleftRel_edges cleftEdges_def
  using afterS4_fields(2)[OF ne, of _ opts] afterS4_length[OF ne, of opts] afterS3_length[OF ne, of opts]
  by auto

lemma afterS4_sorted:
  assumes ne: "arr \<noteq> []"
  shows "sorted_wrt (\<lambda>p q. depth (blocks (afterS4 opts arr) ! q) \<le> depth (blocks (afterS4 opts arr) ! p))
           (blocksReordered (afterS4 opts arr))"
proof -
  have s: "set (seedOrder (afterS3 opts arr)) = {..<length arr}"
    using afterS3_order(1)[OF ne, of opts] by (simp add: seedOrder_set)
  show ?thesis unfolding afterS4_order
    by (rule sorted_wrt_mono_rel[OF _ seedOrder_sorted]) (use s afterS4_fields(1)[OF ne, of _ opts] in auto)
qed

lemma afterS4_first:
  assumes ne: "arr \<noteq> []" and b: "b < length arr"
  shows "\<exists>k<length arr. (blocksReordered (afterS4 opts arr) ! k, b) \<in> (cleftRel (afterS4 opts arr))\<^sup>* \<and>
           (\<forall>k'<k. (blocksReordered (afterS4 opts arr) ! k', b) \<notin> (cleftRel (afterS4 opts arr))\<^sup>*) \<and>
           pathDepth (blocks (afterS4 opts arr) ! b) =
             depth (blocks (afterS4 opts arr) ! (blocksReordered (afterS4 opts arr) ! k)) + 1"
proof -
  let ?st = "afterS3 opts arr"
  let ?ord = "seedOrder ?st"
  let ?bs = "fold seedStep ?ord (blocks ?st)"
  let ?R = "cleftEdges (blocks ?st)"
  have inv: "seedInv (blocks ?st) ?ord ?bs" by (rule afterS3_seedInv[OF ne])
  have s: "set ?ord = {..<length arr}"
    using afterS3_order(1)[OF ne, of opts] by (simp add: seedOrder_set)
  have d: "distinct ?ord" using afterS3_order(2)[OF ne, of opts] by (simp add: seedOrder_distinct)
  have len: "length ?ord = length arr"
    using distinct_card[OF d] s by simp
  have "b \<in> set ?ord" using s b by simp
  then have "b \<in> ?R\<^sup>* `` set ?ord" by blast
  then have bv: "b \<in> visitedSet ?bs" using seedInvD(2)[OF inv] by simp
  from seedInvD(3)[OF inv bv] obtain k where k: "k < length ?ord" "(?ord ! k, b) \<in> ?R\<^sup>*"
    "\<forall>k'<k. (?ord ! k', b) \<notin> ?R\<^sup>*" "pathDepth (?bs ! b) = depth (blocks ?st ! (?ord ! k)) + 1"
    by blast
  have kk: "?ord ! k < length arr" using k(1) s nth_mem[of k ?ord] by auto
  show ?thesis
    unfolding afterS4_cleftRel[OF ne] afterS4_order
    using k len afterS4_fields(10)[OF ne b, of opts] afterS4_fields(1)[OF ne kk, of opts]
    by (intro exI[of _ k]) simp
qed

lemma afterS4_reach_depth:
  assumes ne: "arr \<noteq> []" and b: "b < length arr" and a: "a < length arr"
    and r: "(a, b) \<in> (cleftRel (afterS4 opts arr))\<^sup>*"
  shows "depth (blocks (afterS4 opts arr) ! a) + 1 \<le> pathDepth (blocks (afterS4 opts arr) ! b)"
proof -
  let ?st = "afterS4 opts arr"
  let ?ord = "blocksReordered ?st"
  have s: "set ?ord = {..<length arr}"
    unfolding afterS4_order using afterS3_order(1)[OF ne, of opts] by (simp add: seedOrder_set)
  have d: "distinct ?ord"
    unfolding afterS4_order using afterS3_order(2)[OF ne, of opts] by (simp add: seedOrder_distinct)
  have len: "length ?ord = length arr" using distinct_card[OF d] s by simp
  from afterS4_first[OF ne b, of opts] obtain k where k: "k < length arr"
    "\<forall>k'<k. (?ord ! k', b) \<notin> (cleftRel ?st)\<^sup>*"
    "pathDepth (blocks ?st ! b) = depth (blocks ?st ! (?ord ! k)) + 1" by blast
  from a s have "a \<in> set ?ord" by simp
  then obtain j where j: "j < length ?ord" "?ord ! j = a" by (auto simp: in_set_conv_nth)
  have "\<not> j < k" using k(2) j(2) r by auto
  then have "k = j \<or> k < j" by arith
  then have "depth (blocks ?st ! (?ord ! j)) \<le> depth (blocks ?st ! (?ord ! k))"
  proof
    assume "k = j" then show ?thesis by simp
  next
    assume "k < j"
    from sorted_wrt_nth_less[OF afterS4_sorted[OF ne, of opts] this j(1)] show ?thesis .
  qed
  then show ?thesis using k(3) j(2) by simp
qed


subsection \<open>C8: the width seeds of S4\<close>

text \<open>
  Claim C8, amended. After S4 (\<open>applyDFS\<close> set, lines 686-689) on a nonempty input, for every
  block \<open>b\<close>: \<open>blocksReordered\<close> is sorted by descending depth; \<open>pathDepth\<close> of \<open>b\<close> is
  \<open>depth + 1\<close> of the first block of that order that reaches \<open>b\<close> along \<open>cleftN\<close> edges, which is
  the one whose search visited \<open>b\<close>; every block \<open>a\<close> that reaches \<open>b\<close> has
  \<open>depth a + 1 \<le> pathDepth b\<close>, so \<open>pathDepth b\<close> is one more than the greatest depth of a block
  that reaches \<open>b\<close>; \<open>left = depth / pathDepth\<close> and \<open>width = 1 / pathDepth\<close>; and the \<open>visited\<close>
  flag is cleared.
\<close>

theorem s4_seeds:
  assumes "arr \<noteq> []" and "b < length arr"
  shows "sorted_wrt (\<lambda>p q. depth (blocks (afterS4 opts arr) ! q) \<le> depth (blocks (afterS4 opts arr) ! p))
           (blocksReordered (afterS4 opts arr)) \<and>
         (\<exists>k<length arr.
            (blocksReordered (afterS4 opts arr) ! k, b) \<in> (cleftRel (afterS4 opts arr))\<^sup>* \<and>
            (\<forall>k'<k. (blocksReordered (afterS4 opts arr) ! k', b) \<notin> (cleftRel (afterS4 opts arr))\<^sup>*) \<and>
            pathDepth (blocks (afterS4 opts arr) ! b) =
              depth (blocks (afterS4 opts arr) ! (blocksReordered (afterS4 opts arr) ! k)) + 1) \<and>
         (\<forall>a<length arr. (a, b) \<in> (cleftRel (afterS4 opts arr))\<^sup>* \<longrightarrow>
            depth (blocks (afterS4 opts arr) ! a) + 1 \<le> pathDepth (blocks (afterS4 opts arr) ! b)) \<and>
         left (blocks (afterS4 opts arr) ! b) =
           real_of_int (depth (blocks (afterS4 opts arr) ! b)) / real_of_int (pathDepth (blocks (afterS4 opts arr) ! b)) \<and>
         width (blocks (afterS4 opts arr) ! b) = 1 / real_of_int (pathDepth (blocks (afterS4 opts arr) ! b)) \<and>
         \<not> visited (blocks (afterS4 opts arr) ! b)"
proof (intro conjI)
  show "sorted_wrt (\<lambda>p q. depth (blocks (afterS4 opts arr) ! q) \<le> depth (blocks (afterS4 opts arr) ! p))
           (blocksReordered (afterS4 opts arr))" by (rule afterS4_sorted[OF assms(1)])
  show "\<exists>k<length arr.
            (blocksReordered (afterS4 opts arr) ! k, b) \<in> (cleftRel (afterS4 opts arr))\<^sup>* \<and>
            (\<forall>k'<k. (blocksReordered (afterS4 opts arr) ! k', b) \<notin> (cleftRel (afterS4 opts arr))\<^sup>*) \<and>
            pathDepth (blocks (afterS4 opts arr) ! b) =
              depth (blocks (afterS4 opts arr) ! (blocksReordered (afterS4 opts arr) ! k)) + 1"
    by (rule afterS4_first[OF assms])
  show "\<forall>a<length arr. (a, b) \<in> (cleftRel (afterS4 opts arr))\<^sup>* \<longrightarrow>
            depth (blocks (afterS4 opts arr) ! a) + 1 \<le> pathDepth (blocks (afterS4 opts arr) ! b)"
    using afterS4_reach_depth[OF assms] by blast
  show "left (blocks (afterS4 opts arr) ! b) =
           real_of_int (depth (blocks (afterS4 opts arr) ! b)) / real_of_int (pathDepth (blocks (afterS4 opts arr) ! b))"
    by (rule afterS4_fields(12)[OF assms])
  show "width (blocks (afterS4 opts arr) ! b) = 1 / real_of_int (pathDepth (blocks (afterS4 opts arr) ! b))"
    by (rule afterS4_fields(13)[OF assms])
  show "\<not> visited (blocks (afterS4 opts arr) ! b)"
    using afterS4_fields(11)[OF assms] by simp
qed

text \<open>
  Claim C8 says that the search from each still-unvisited block \<open>s\<close> sets
  \<open>pathDepth = s.depth + 1\<close> on every block reachable from \<open>s\<close>. The search skips the blocks an
  earlier search has visited (line 282). For \<open>[0,100), [10,30), [40,90), [50,60)\<close> at the
  default options the order is 3, 2, 1, 0; block 1 is still unvisited after the searches from
  3 and 2, block 0 is in \<open>cleftN\<close> of block 1, \<open>depth\<close> of block 1 is 1, and \<open>pathDepth\<close> of
  block 0 stays 3, which the search from block 3 gave it.
\<close>

theorem s4_start_counterexample:
  "blocksReordered (afterS4 defaultOptions [(0, 100), (10, 30), (40, 90), (50, 60)]) = [3, 2, 1, 0] \<and>
   \<not> visited (fold seedStep [3, 2] (blocks (afterS3 defaultOptions [(0, 100), (10, 30), (40, 90), (50, 60)])) ! 1) \<and>
   (1, 0) \<in> cleftRel (afterS4 defaultOptions [(0, 100), (10, 30), (40, 90), (50, 60)]) \<and>
   depth (blocks (afterS4 defaultOptions [(0, 100), (10, 30), (40, 90), (50, 60)]) ! 1) + 1 = 2 \<and>
   pathDepth (blocks (afterS4 defaultOptions [(0, 100), (10, 30), (40, 90), (50, 60)]) ! 0) = 3"
proof (intro conjI)
  show "blocksReordered (afterS4 defaultOptions [(0, 100), (10, 30), (40, 90), (50, 60)]) = [3, 2, 1, 0]"
    by code_simp
  show "\<not> visited (fold seedStep [3, 2] (blocks (afterS3 defaultOptions [(0, 100), (10, 30), (40, 90), (50, 60)])) ! 1)"
    by code_simp
  show "(1, 0) \<in> cleftRel (afterS4 defaultOptions [(0, 100), (10, 30), (40, 90), (50, 60)])"
    by code_simp
  show "depth (blocks (afterS4 defaultOptions [(0, 100), (10, 30), (40, 90), (50, 60)]) ! 1) + 1 = 2"
    by code_simp
  show "pathDepth (blocks (afterS4 defaultOptions [(0, 100), (10, 30), (40, 90), (50, 60)]) ! 0) = 3"
    by code_simp
qed

text \<open>
  The amended C8 on the same input, for block 0: block 3 of depth 2 reaches it, its
  \<open>pathDepth\<close> is 3, \<open>left = 0\<close> and \<open>width = 1/3\<close>.
\<close>

theorem s4_seeds_witness:
  "[(0, 100), (10, 30), (40, 90), (50, 60)] \<noteq> ([] :: Input list) \<and>
   (0::nat) < length [(0, 100), (10, 30), (40, 90), (50, 60) :: Input] \<and>
   (3, 0) \<in> (cleftRel (afterS4 defaultOptions [(0, 100), (10, 30), (40, 90), (50, 60)]))\<^sup>* \<and>
   depth (blocks (afterS4 defaultOptions [(0, 100), (10, 30), (40, 90), (50, 60)]) ! 3) = 2 \<and>
   pathDepth (blocks (afterS4 defaultOptions [(0, 100), (10, 30), (40, 90), (50, 60)]) ! 0) = 3 \<and>
   left (blocks (afterS4 defaultOptions [(0, 100), (10, 30), (40, 90), (50, 60)]) ! 0) = 0 \<and>
   width (blocks (afterS4 defaultOptions [(0, 100), (10, 30), (40, 90), (50, 60)]) ! 0) = 1 / 3 \<and>
   \<not> visited (blocks (afterS4 defaultOptions [(0, 100), (10, 30), (40, 90), (50, 60)]) ! 0)"
proof -
  let ?arr = "[(0, 100), (10, 30), (40, 90), (50, 60)] :: Input list"
  let ?st = "afterS4 defaultOptions ?arr"
  have ne: "?arr \<noteq> []" and b: "(0::nat) < length ?arr" by simp_all
  have e1: "(3, 2) \<in> cleftRel ?st" by code_simp
  have e2: "(2, 0) \<in> cleftRel ?st" by code_simp
  have r: "(3, 0) \<in> (cleftRel ?st)\<^sup>*" using e1 e2 by (meson rtrancl.simps)
  have d0: "depth (blocks ?st ! 0) = 0" by code_simp
  have d3: "depth (blocks ?st ! 3) = 2" by code_simp
  have p: "pathDepth (blocks ?st ! 0) = 3" by code_simp
  note t = s4_seeds[OF ne b, of defaultOptions]
  show ?thesis using t ne b r d0 d3 p by simp
qed

section \<open>The LP models\<close>

subsection \<open>Rows and counters\<close>

lemmas glp_defs = glp_create_prob_def glp_set_obj_dir_def glp_add_rows_def glp_add_cols_def
  glp_set_row_bnds_def glp_set_col_bnds_def glp_set_obj_coef_def glp_set_col_kind_BV_def
  glp_load_matrix_def glp_simplex_def glp_intopt_def



lemma grows_wf:
  assumes "grows B B'" and "wfBuilder B"
  shows "0 < auxVar B'"
  using assms unfolding grows_def wfBuilder_def by auto





lemma rowStep_fields [simp]:
  "auxVar (rowStep t lb ub cs B) = auxVar B + 1"
  "ija (rowStep t lb ub cs B) = ija B @ map (\<lambda>c. (auxVar B, fst c, snd c)) cs"
  "row_bnds (lp (rowStep t lb ub cs B)) = (row_bnds (lp B))[auxVar B - 1 := (t, lb, ub)]"
  "col_bnds (lp (rowStep t lb ub cs B)) = col_bnds (lp B)"
  "col_kind (lp (rowStep t lb ub cs B)) = col_kind (lp B)"
  by (simp_all add: rowStep_def nextRow_def glp_defs)






















subsection \<open>The problems of \<open>buildLPModel1\<close>\<close>

















subsection \<open>The problem of \<open>buildLPModel2\<close>\<close>










subsection \<open>The search for fixed blocks returns\<close>
























subsection \<open>The components\<close>





subsection \<open>Frames of the LP stage\<close>













subsection \<open>One model, one iteration, the loop\<close>













subsection \<open>The state in which the LP loop starts\<close>









subsection \<open>C9: the widths across the iterations of S6\<close>




subsection \<open>The paths of compute\<close>

lemma stageS1_total_pos:
  assumes ne: "arr \<noteq> []"
  shows "1 \<le> snd (stageS1 opts (setupBlocks arr))"
proof -
  have "0 < length arr" using ne by simp
  from afterS1_depth_range[OF ne this, of opts] show ?thesis by simp
qed





subsection \<open>C10: the lower bound of the final widths\<close>




subsection \<open>The problem of \<open>buildMILPModel\<close>\<close>












lemma bvFold_facts:
  "row_bnds (fold (\<lambda>i p. glp_set_obj_coef (i + 1) 0 (glp_set_col_kind_BV (i + 1) p)) ks p) = row_bnds p"
  "length (col_bnds (fold (\<lambda>i p. glp_set_obj_coef (i + 1) 0 (glp_set_col_kind_BV (i + 1) p)) ks p))
     = length (col_bnds p)"
  "length (col_kind (fold (\<lambda>i p. glp_set_obj_coef (i + 1) 0 (glp_set_col_kind_BV (i + 1) p)) ks p))
     = length (col_kind p)"
  "j \<notin> set ks \<Longrightarrow>
     col_bnds (fold (\<lambda>i p. glp_set_obj_coef (i + 1) 0 (glp_set_col_kind_BV (i + 1) p)) ks p) ! j
       = col_bnds p ! j"
  by (induction ks arbitrary: p) (simp_all add: glp_defs)

lemma bvFold_kind:
  assumes "j \<in> set ks" and "j < length (col_kind p)"
  shows "col_kind (fold (\<lambda>i p. glp_set_obj_coef (i + 1) 0 (glp_set_col_kind_BV (i + 1) p)) ks p) ! j = GLP_BV"
  using assms
proof (induction ks arbitrary: p rule: rev_induct)
  case Nil
  then show ?case by simp
next
  case (snoc k ks)
  let ?q = "fold (\<lambda>i p. glp_set_obj_coef (i + 1) 0 (glp_set_col_kind_BV (i + 1) p)) ks p"
  have len: "length (col_kind ?q) = length (col_kind p)" by (rule bvFold_facts(3))
  show ?case
  proof (cases "j = k")
    case True
    then show ?thesis using snoc.prems(2) len by (simp add: glp_defs)
  next
    case False
    then have "j \<in> set ks" using snoc.prems(1) by simp
    from snoc.IH[OF this snoc.prems(2)] False show ?thesis by (simp add: glp_defs)
  qed
qed







subsection \<open>C2: every block within the unit interval\<close>



end
